theory Spec2Isabelle
  imports Main
begin

section \<open>Strings and library conversions\<close>

text \<open>
  A JavaScript string is modelled as a \<^typ>\<open>string\<close>: a list of code units, restricted to
  the code units below 256. Numbers are JavaScript doubles in the source; the amounts
  handled here are integers (wei, gas units, block numbers) and are modelled as
  integers, within the range where doubles are exact on them.
\<close>

text \<open>\<^verbatim>\<open>s.split(c)\<close> for a one-character separator: \<open>k\<close> separators give \<open>k + 1\<close> pieces,
  empty pieces included; the empty string gives one empty piece.\<close>

fun split_on :: "char \<Rightarrow> string \<Rightarrow> string list" where
  "split_on c [] = [[]]"
| "split_on c (x # xs) =
     (if x = c then [] # split_on c xs
      else (case split_on c xs of [] \<Rightarrow> [[x]] | p # ps \<Rightarrow> (x # p) # ps))"

text \<open>The code unit of a character, as \<^verbatim>\<open>charCodeAt\<close> reads it.\<close>

definition code :: "char \<Rightarrow> nat" where
  "code c = of_char c"

definition is_digit :: "char \<Rightarrow> bool" where
  "is_digit c = (48 \<le> code c \<and> code c \<le> 57)"

definition digit_val :: "char \<Rightarrow> nat" where
  "digit_val c = code c - 48"

text \<open>The value of a string of decimal digits (\<^verbatim>\<open>new BN(s)\<close> in base 10).\<close>

definition dec_val :: "string \<Rightarrow> nat" where
  "dec_val s = foldl (\<lambda>a c. 10 * a + digit_val c) 0 s"

text \<open>
  \<^verbatim>\<open>web3.utils.toWei(s, "ether")\<close> for a string \<open>s\<close>. The function belongs to the web3
  library, not to this repository; the definition follows the library's conversion
  (web3-utils 1.x on ethjs-unit): the string must match \<^verbatim>\<open>/^-?[0-9.]+$/\<close>, a leading minus
  is split off, a lone dot and a second dot are rejected, an empty whole or fraction
  reads as \<open>0\<close>, a fraction longer than 18 digits is rejected and a shorter one is
  padded with zeros. \<open>None\<close> is the exception the library throws. The library returns
  the decimal rendering of the resulting big number, which is a non-empty string;
  the model returns the number it renders.
\<close>

definition toWei_ether :: "string \<Rightarrow> int option" where
  "toWei_ether s =
     (let negative = (take 1 s = ''-'');
          ether = (if negative then drop 1 s else s)
      in if ether = [] \<or> \<not> list_all (\<lambda>c. is_digit c \<or> c = CHR ''.'') ether then None
         else if ether = ''.'' then None
         else let comps = split_on (CHR ''.'') ether in
           if length comps > 2 then None
           else let whole = (if hd comps = [] then ''0'' else hd comps);
                    fraction = (if length comps < 2 \<or> comps ! 1 = [] then ''0'' else comps ! 1)
                in if length fraction > 18 then None
                   else let wei = int (dec_val whole) * 10 ^ 18
                                  + int (dec_val (fraction @ replicate (18 - length fraction) (CHR ''0'')))
                        in Some (if negative then - wei else wei))"

section \<open>Fee computation of callSmartContract\<close>

text \<open>
  A fee field of the input (\<^verbatim>\<open>gasLimit\<close>, \<^verbatim>\<open>maxFeePerGas\<close>, \<^verbatim>\<open>maxPriorityFeePerGas\<close>,
  typed \<^verbatim>\<open>string | number\<close> and optional) is \<open>None\<close> when the caller did not supply it.
\<close>

datatype fee_field = NumV int | StrV string

text \<open>
  The same field after the normalisation loop (\<^verbatim>\<open>for (const key of ["gasLimit", ...])\<close>):
  a number is left as it is, a string has been replaced by the string \<^verbatim>\<open>toWei\<close> returns.
  \<open>WStr w\<close> stands for the decimal string of the integer \<open>w\<close>.
\<close>

datatype wei_field = WNum int | WStr int

datatype error =
    InvalidFunctionDeclaration
  | InvalidFunctionParameter string
  | InvalidEventDeclaration
  | InvalidEventParameter string
  | MissingParameter string
  | ToWeiError string
  | NumberToBN string
  | GasLimitTooLow wei_field int int
  | InsufficientFee int int

fun normalize_field :: "fee_field option \<Rightarrow> error + wei_field option" where
  "normalize_field None = Inr None"
| "normalize_field (Some (NumV n)) = Inr (Some (WNum n))"
| "normalize_field (Some (StrV s)) =
     (case toWei_ether s of None \<Rightarrow> Inl (ToWeiError s) | Some w \<Rightarrow> Inr (Some (WStr w)))"

text \<open>JavaScript truthiness: a number is truthy unless it is zero, a string unless it
  is empty. A decimal rendering is never empty, so \<open>WStr w\<close> is truthy, also for \<open>w = 0\<close>.\<close>

fun truthy :: "wei_field \<Rightarrow> bool" where
  "truthy (WNum n) = (n \<noteq> 0)"
| "truthy (WStr w) = True"

text \<open>\<^verbatim>\<open>Number(v)\<close> on a number or on a decimal string.\<close>

fun Number_of :: "wei_field \<Rightarrow> int" where
  "Number_of (WNum n) = n"
| "Number_of (WStr w) = w"

text \<open>\<^verbatim>\<open>f || d\<close> for an optional field \<open>f\<close>.\<close>

fun js_or :: "wei_field option \<Rightarrow> wei_field \<Rightarrow> wei_field" where
  "js_or None d = d"
| "js_or (Some v) d = (if truthy v then v else d)"

text \<open>\<^verbatim>\<open>web3.utils.toWei("30", "gwei")\<close> and \<^verbatim>\<open>web3.utils.toWei("75", "gwei")\<close>.\<close>

definition floor_tip :: wei_field where
  "floor_tip = WStr 30000000000"

definition default_tip :: wei_field where
  "default_tip = WStr 75000000000"

text \<open>
  The code computes with doubles. On integers below \<open>2^53\<close> in magnitude the operations it
  uses are exact: \<^verbatim>\<open>Number\<close> of a decimal string is the integer, sums and differences are
  the integer ones as long as they stay in that range, and \<^verbatim>\<open>Math.floor(a / b)\<close> is the
  integer quotient rounded down (the rounding error of \<open>a / b\<close> is below \<open>1 / b\<close>, the
  distance of a non-integral quotient from the next integer). The model follows the
  code only there: the base fee, the gas limit and the supplied fields are required to
  be below \<open>2^52\<close> in magnitude, which keeps every sum and difference of lines 279 to
  293 below \<open>2^53\<close>, the gas limit to be positive, and the product \<^verbatim>\<open>minFee * txConfig.gas\<close>
  to be below \<open>10^20\<close>, so that \<^verbatim>\<open>String\<close> renders it in digits. Outside this range the
  functions below give \<open>None\<close>: the rounding of doubles is not modelled.
\<close>

definition exact_amount :: "int \<Rightarrow> bool" where
  "exact_amount n = (\<bar>n\<bar> < 2 ^ 52)"

definition in_exact_range :: "int \<Rightarrow> int \<Rightarrow> wei_field option \<Rightarrow> wei_field option \<Rightarrow> bool" where
  "in_exact_range baseFee txGas gasLimit maxPriorityFeePerGas =
     (exact_amount baseFee \<and> 0 < txGas \<and> exact_amount txGas
      \<and> (case gasLimit of None \<Rightarrow> True | Some g \<Rightarrow> exact_amount (Number_of g))
      \<and> (case maxPriorityFeePerGas of None \<Rightarrow> True | Some t \<Rightarrow> exact_amount (Number_of t))
      \<and> \<bar>(baseFee + Number_of floor_tip) * txGas\<bar> < 10 ^ 20)"

text \<open>
  The three local values of lines 279 to 283: \<^verbatim>\<open>minFee\<close>, \<^verbatim>\<open>Number(maxTip)\<close> and \<^verbatim>\<open>maxFee\<close>.
  \<open>baseFee\<close> is \<^verbatim>\<open>Number(block.baseFeePerGas)\<close> of the pending block and \<open>txGas\<close> is
  \<^verbatim>\<open>txConfig.gas\<close>, the final gas limit.
\<close>

record fee_bounds =
  minFee :: int
  maxTip :: int
  maxFee :: int

definition fee_bounds_of ::
  "int \<Rightarrow> int \<Rightarrow> wei_field option \<Rightarrow> wei_field option \<Rightarrow> fee_bounds option" where
  "fee_bounds_of baseFee txGas gasLimit maxPriorityFeePerGas =
     (if \<not> in_exact_range baseFee txGas gasLimit maxPriorityFeePerGas then None
      else Some
        \<lparr> minFee = baseFee + Number_of floor_tip,
          maxTip = Number_of (js_or maxPriorityFeePerGas default_tip),
          maxFee =
            (case gasLimit of
               Some g \<Rightarrow>
                 if truthy g then Number_of g div txGas
                 else baseFee + Number_of (js_or maxPriorityFeePerGas default_tip)
             | None \<Rightarrow> baseFee + Number_of (js_or maxPriorityFeePerGas default_tip)) \<rparr>)"

text \<open>
  The \<^verbatim>\<open>throw\<close> of lines 285 to 290. The message is built before the error: it applies
  \<^verbatim>\<open>web3.utils.fromWei\<close> to \<^verbatim>\<open>String(input.fields.gasLimit)\<close> and to
  \<^verbatim>\<open>String(minFee * txConfig.gas)\<close>. Without a \<^verbatim>\<open>gasLimit\<close> the first string is
  \<^verbatim>\<open>"undefined"\<close>, which the library rejects with its own number conversion error, and
  that error is what leaves the function. With a \<^verbatim>\<open>gasLimit\<close> both strings are integers
  in digits, and the error thrown is the one of the code; it is given here by the values
  its message is built from: the budget, \<^verbatim>\<open>minFee\<close> and \<^verbatim>\<open>txConfig.gas\<close>.
\<close>

definition fee_error :: "wei_field option \<Rightarrow> int \<Rightarrow> int \<Rightarrow> error" where
  "fee_error gasLimit min_fee txGas =
     (case gasLimit of
        None \<Rightarrow> NumberToBN ''undefined''
      | Some g \<Rightarrow> GasLimitTooLow g min_fee txGas)"

record fee_result =
  maxFeePerGas_out :: int
  maxPriorityFeePerGas_out :: int

text \<open>Lines 278 to 293 of \<^verbatim>\<open>callSmartContract\<close>: the error thrown, or the two fee fields
  written to \<^verbatim>\<open>txConfig\<close>.\<close>

definition compute_fees ::
  "int \<Rightarrow> int \<Rightarrow> wei_field option \<Rightarrow> wei_field option \<Rightarrow> (error + fee_result) option" where
  "compute_fees baseFee txGas gasLimit maxPriorityFeePerGas =
     (case fee_bounds_of baseFee txGas gasLimit maxPriorityFeePerGas of
        None \<Rightarrow> None
      | Some b \<Rightarrow>
          Some (if maxFee b < minFee b then Inl (fee_error gasLimit (minFee b) txGas)
                else Inr \<lparr> maxFeePerGas_out = maxFee b,
                           maxPriorityFeePerGas_out = min (maxTip b) (maxFee b - baseFee - 1) \<rparr>))"


text \<open>The value a supplied fee field denotes in wei: a number as it is, a string through
  \<^const>\<open>toWei_ether\<close>.\<close>

fun wei_value :: "fee_field \<Rightarrow> int option" where
  "wei_value (NumV n) = Some n"
| "wei_value (StrV s) = toWei_ether s"


section \<open>Event descriptors and the event trigger\<close>

text \<open>One input of an event descriptor, as \<^verbatim>\<open>parseEventDeclaration\<close> builds it
  (\<^verbatim>\<open>{indexed, type, name}\<close>).\<close>

record abi_input =
  indexed :: bool
  abi_type :: string
  name :: string

text \<open>The descriptor of an event (\<^verbatim>\<open>{name, inputs, type: "event", anonymous: false}\<close>).\<close>

record event_item =
  item_name :: string
  inputs :: "abi_input list"
  item_type :: string
  anonymous :: bool

text \<open>
  The functions of \<^verbatim>\<open>web3.eth.abi\<close> the trigger calls. They belong to the web3 library and
  are parameters of the model; \<open>'v\<close> is the type of the JavaScript values that are encoded
  and decoded, \<^verbatim>\<open>undefined\<close> among them. \<open>decodeLog\<close> returns an object, read here by
  parameter name (\<^verbatim>\<open>decoded[name]\<close>).
\<close>

record 'v web3_abi =
  encodeEventSignature :: "event_item \<Rightarrow> string"
  encodeParameter :: "string \<Rightarrow> 'v \<Rightarrow> string"
  decodeLog :: "abi_input list \<Rightarrow> string \<Rightarrow> string list \<Rightarrow> string \<Rightarrow> 'v"

text \<open>A log entry as the subscription delivers it.\<close>

record log =
  removed :: bool
  blockHash :: string
  blockNumber :: int
  data :: string
  topics :: "string list"

text \<open>
  The filter bag \<^verbatim>\<open>this.fields.parameterFilters\<close> is a map from names to values: its domain
  is the set of names for which \<^verbatim>\<open>name in parameterFilters\<close> holds.
\<close>

type_synonym 'v parameterFilters = "string \<rightharpoonup> 'v"

text \<open>
  The bag is a plain object: besides the properties the caller wrote, \<^verbatim>\<open>in\<close> and the
  property read see the properties it inherits from \<^verbatim>\<open>Object.prototype\<close>. \<open>plain_object\<close>
  gives the bag as the code reads it, from the caller's own properties and the values
  of the inherited ones.
\<close>

definition object_prototype_names :: "string list" where
  "object_prototype_names =
     [''constructor'', ''__defineGetter__'', ''__defineSetter__'', ''hasOwnProperty'',
      ''__lookupGetter__'', ''__lookupSetter__'', ''isPrototypeOf'', ''propertyIsEnumerable'',
      ''toString'', ''valueOf'', ''__proto__'', ''toLocaleString'']"

definition plain_object :: "(string \<rightharpoonup> 'v) \<Rightarrow> (string \<Rightarrow> 'v) \<Rightarrow> 'v parameterFilters" where
  "plain_object own inherited =
     (\<lambda>k. case own k of
            Some v \<Rightarrow> Some v
          | None \<Rightarrow> if k \<in> set object_prototype_names then Some (inherited k) else None)"

text \<open>The loop that builds the topic list \<^verbatim>\<open>topics\<close> (lines 161 to 168), pushing onto it.\<close>

fun push_topics ::
  "'v web3_abi \<Rightarrow> 'v parameterFilters \<Rightarrow> abi_input list \<Rightarrow> string option list
   \<Rightarrow> string option list" where
  "push_topics w pf [] topic_list = topic_list"
| "push_topics w pf (input # rest) topic_list =
     (if indexed input
      then push_topics w pf rest
             (topic_list @ [case pf (name input) of
                          Some v \<Rightarrow> Some (encodeParameter w (abi_type input) v)
                        | None \<Rightarrow> None])
      else push_topics w pf rest topic_list)"

definition build_topics ::
  "'v web3_abi \<Rightarrow> 'v parameterFilters \<Rightarrow> event_item \<Rightarrow> string option list" where
  "build_topics w pf eventInfo =
     push_topics w pf (inputs eventInfo) [Some (encodeEventSignature w eventInfo)]"

text \<open>The handler of the log subscription (lines 175 to 182), on the buffer
  \<^verbatim>\<open>pendingLogs\<close>.\<close>

definition on_log :: "log list \<Rightarrow> log \<Rightarrow> log list" where
  "on_log pendingLogs logEntry =
     (if removed logEntry
      then filter (\<lambda>x. blockHash x \<noteq> blockHash logEntry) pendingLogs
      else pendingLogs @ [logEntry])"

text \<open>
  The argument of \<^verbatim>\<open>sendNotification\<close>, the object literal \<^verbatim>\<open>{_rawEvent: logEntry, ...event}\<close>,
  by its two parts; \<open>payload_object\<close> is the object it evaluates to: the spread properties
  are written after \<^verbatim>\<open>_rawEvent\<close> and replace it when they have that key.
\<close>

record 'v notification =
  rawEvent :: log
  spread :: "string \<rightharpoonup> 'v"

datatype 'v payload_value = RawLog log | Decoded 'v

definition payload_object :: "'v notification \<Rightarrow> (string \<rightharpoonup> 'v payload_value)" where
  "payload_object n =
     [''_rawEvent'' \<mapsto> RawLog (rawEvent n)] ++ (\<lambda>k. map_option Decoded (spread n k))"

text \<open>
  The inner loop over the inputs (lines 202 to 214) for one confirmed entry. The first
  component of the result lists, in order, the names of the inputs whose two encodings
  were computed and compared. The second is \<open>None\<close> when the loop left through
  \<^verbatim>\<open>return\<close>, and the object \<^verbatim>\<open>event\<close> when it ran to its end.
\<close>

fun match_inputs ::
  "'v web3_abi \<Rightarrow> 'v parameterFilters \<Rightarrow> (string \<Rightarrow> 'v) \<Rightarrow> abi_input list
   \<Rightarrow> (string \<rightharpoonup> 'v) \<Rightarrow> string list \<times> (string \<rightharpoonup> 'v) option" where
  "match_inputs w pf decoded [] event = ([], Some event)"
| "match_inputs w pf decoded (input # rest) event =
     (case pf (name input) of
        None \<Rightarrow> match_inputs w pf decoded rest event
      | Some expected \<Rightarrow>
          if encodeParameter w (abi_type input) (decoded (name input))
               \<noteq> encodeParameter w (abi_type input) expected
          then ([name input], None)
          else (case match_inputs w pf decoded rest
                       (event(name input \<mapsto> decoded (name input))) of
                  (compared, r) \<Rightarrow> (name input # compared, r)))"

text \<open>Line 200: \<^verbatim>\<open>decodeLog(inputs, logEntry.data, logEntry.topics.slice(1))\<close>.\<close>

definition decoded_log :: "'v web3_abi \<Rightarrow> abi_input list \<Rightarrow> log \<Rightarrow> string \<Rightarrow> 'v" where
  "decoded_log w ins logEntry = decodeLog w ins (data logEntry) (drop 1 (topics logEntry))"

definition confirm_entry ::
  "'v web3_abi \<Rightarrow> 'v parameterFilters \<Rightarrow> abi_input list \<Rightarrow> log
   \<Rightarrow> string list \<times> (string \<rightharpoonup> 'v) option" where
  "confirm_entry w pf ins logEntry =
     match_inputs w pf (decoded_log w ins logEntry) ins Map.empty"

text \<open>
  The loop over the swapped-out buffer (lines 195 to 219). \<open>Completed\<close> is the loop
  running to its end, with \<^verbatim>\<open>newPendingLogs\<close> and the notifications sent; \<open>Returned\<close> is
  the handler left through the \<^verbatim>\<open>return\<close> of the inner loop, with the notifications sent
  until then.
\<close>

datatype 'v pass_outcome =
    Completed "log list" "'v notification list"
  | Returned "'v notification list"

fun process_logs ::
  "'v web3_abi \<Rightarrow> 'v parameterFilters \<Rightarrow> abi_input list \<Rightarrow> int \<Rightarrow> log list
   \<Rightarrow> log list \<Rightarrow> 'v notification list \<Rightarrow> 'v pass_outcome" where
  "process_logs w pf ins number [] newPendingLogs sent = Completed newPendingLogs sent"
| "process_logs w pf ins number (logEntry # rest) newPendingLogs sent =
     (if blockNumber logEntry > number - 2
      then process_logs w pf ins number rest (newPendingLogs @ [logEntry]) sent
      else (case snd (confirm_entry w pf ins logEntry) of
              None \<Rightarrow> Returned sent
            | Some event \<Rightarrow>
                process_logs w pf ins number rest newPendingLogs
                  (sent @ [\<lparr> rawEvent = logEntry, spread = event \<rparr>])))"

text \<open>
  The handler of the header subscription (lines 188 to 221): the new buffer and the
  notifications sent. A header whose number is falsy is ignored. The handler is
  modelled as one atomic step: no log arrives while it runs.
\<close>

definition on_header ::
  "'v web3_abi \<Rightarrow> 'v parameterFilters \<Rightarrow> abi_input list \<Rightarrow> log list \<Rightarrow> int
   \<Rightarrow> log list \<times> 'v notification list" where
  "on_header w pf ins pendingLogs number =
     (if number = 0 then (pendingLogs, [])
      else (case process_logs w pf ins number pendingLogs [] [] of
              Completed newPendingLogs sent \<Rightarrow> ([] @ newPendingLogs, sent)
            | Returned sent \<Rightarrow> ([], sent)))"

text \<open>The messages of the two subscriptions, and one message handled from start to end
  with nothing in between.\<close>

datatype message = LogData log | NewBlockHeader int

fun step ::
  "'v web3_abi \<Rightarrow> 'v parameterFilters \<Rightarrow> abi_input list \<Rightarrow> log list \<Rightarrow> message
   \<Rightarrow> log list \<times> 'v notification list" where
  "step w pf ins pendingLogs (LogData logEntry) = (on_log pendingLogs logEntry, [])"
| "step w pf ins pendingLogs (NewBlockHeader number) = on_header w pf ins pendingLogs number"

text \<open>
  The header handler is an \<^verbatim>\<open>async\<close> function: at \<^verbatim>\<open>await this.sendNotification(...)\<close> it is
  suspended, and other messages are handled before it resumes. \<open>advance\<close> runs the loop
  of lines 195 to 219 from the entries not yet visited up to the next suspension:
  \<open>Awaiting\<close> carries the notification sent, the entries still to visit and
  \<^verbatim>\<open>newPendingLogs\<close>; \<open>PassDone\<close> is the loop at its end; \<open>PassLeft\<close> is the \<^verbatim>\<open>return\<close> of
  line 211.
\<close>

datatype 'v pass_point =
    Awaiting "'v notification" "log list" "log list"
  | PassDone "log list"
  | PassLeft

fun advance ::
  "'v web3_abi \<Rightarrow> 'v parameterFilters \<Rightarrow> abi_input list \<Rightarrow> int \<Rightarrow> log list
   \<Rightarrow> log list \<Rightarrow> 'v pass_point" where
  "advance w pf ins number [] newPendingLogs = PassDone newPendingLogs"
| "advance w pf ins number (logEntry # rest) newPendingLogs =
     (if blockNumber logEntry > number - 2
      then advance w pf ins number rest (newPendingLogs @ [logEntry])
      else (case snd (confirm_entry w pf ins logEntry) of
              None \<Rightarrow> PassLeft
            | Some event \<Rightarrow>
                Awaiting \<lparr> rawEvent = logEntry, spread = event \<rparr> rest newPendingLogs))"

text \<open>
  The trigger with its suspended passes: the shared variable \<^verbatim>\<open>pendingLogs\<close>, and for
  each suspended pass its header number, the entries it has still to visit and its
  \<^verbatim>\<open>newPendingLogs\<close>, which are locals of the handler.
\<close>

record trigger =
  buffer :: "log list"
  suspended :: "(int \<times> log list \<times> log list) list"

text \<open>What happens next: a log arrives, a header arrives, or the \<^verbatim>\<open>sendNotification\<close> that
  the \<open>k\<close>-th suspended pass waits for completes.\<close>

datatype occurrence = LogArrives log | HeaderArrives int | NotificationDone nat

fun proceed :: "trigger \<Rightarrow> int \<Rightarrow> 'v pass_point \<Rightarrow> trigger \<times> 'v notification list" where
  "proceed t number (Awaiting n rest newPendingLogs) =
     (t \<lparr> suspended := suspended t @ [(number, rest, newPendingLogs)] \<rparr>, [n])"
| "proceed t number (PassDone newPendingLogs) =
     (t \<lparr> buffer := buffer t @ newPendingLogs \<rparr>, [])"
| "proceed t number PassLeft = (t, [])"

fun occur ::
  "'v web3_abi \<Rightarrow> 'v parameterFilters \<Rightarrow> abi_input list \<Rightarrow> trigger \<Rightarrow> occurrence
   \<Rightarrow> trigger \<times> 'v notification list" where
  "occur w pf ins t (LogArrives logEntry) = (t \<lparr> buffer := on_log (buffer t) logEntry \<rparr>, [])"
| "occur w pf ins t (HeaderArrives number) =
     (if number = 0 then (t, [])
      else proceed (t \<lparr> buffer := [] \<rparr>) number (advance w pf ins number (buffer t) []))"
| "occur w pf ins t (NotificationDone k) =
     (if k < length (suspended t)
      then (case suspended t ! k of
              (number, rest, newPendingLogs) \<Rightarrow>
                proceed (t \<lparr> suspended := take k (suspended t) @ drop (Suc k) (suspended t) \<rparr>)
                  number (advance w pf ins number rest newPendingLogs))
      else (t, []))"

fun occur_all ::
  "'v web3_abi \<Rightarrow> 'v parameterFilters \<Rightarrow> abi_input list \<Rightarrow> trigger \<Rightarrow> occurrence list
   \<Rightarrow> trigger \<times> 'v notification list" where
  "occur_all w pf ins t [] = (t, [])"
| "occur_all w pf ins t (x # xs) =
     (case occur w pf ins t x of
        (t', sent) \<Rightarrow>
          (case occur_all w pf ins t' xs of
             (final, sent') \<Rightarrow> (final, sent @ sent')))"

text \<open>The notifications an outcome carries, and the entries it hands back to the
  buffer (none after a \<^verbatim>\<open>return\<close>: line 220 is not reached).\<close>

definition sent_of :: "'v pass_outcome \<Rightarrow> 'v notification list" where
  "sent_of out = (case out of Completed _ s \<Rightarrow> s | Returned s \<Rightarrow> s)"

definition kept_of :: "'v pass_outcome \<Rightarrow> log list" where
  "kept_of out = (case out of Completed k _ \<Rightarrow> k | Returned _ \<Rightarrow> [])"

text \<open>The inputs the caller has a filter value for, and whether the decoded value of
  such an input has the encoding of the filter value.\<close>

definition filtered_inputs :: "'v parameterFilters \<Rightarrow> abi_input list \<Rightarrow> abi_input list" where
  "filtered_inputs pf ins = filter (\<lambda>i. pf (name i) \<noteq> None) ins"

definition field_matches ::
  "'v web3_abi \<Rightarrow> 'v parameterFilters \<Rightarrow> (string \<Rightarrow> 'v) \<Rightarrow> abi_input \<Rightarrow> bool" where
  "field_matches w pf decoded i =
     (encodeParameter w (abi_type i) (decoded (name i))
        = encodeParameter w (abi_type i) (the (pf (name i))))"

text \<open>
  A stand-in for the library in the examples below: values are strings, the encoding
  of a value is the value, every parameter of a log decodes to the log's data, and
  the signature of an event is its name.
\<close>

definition example_abi :: "string web3_abi" where
  "example_abi = \<lparr> encodeEventSignature = item_name,
                   encodeParameter = (\<lambda>t v. v),
                   decodeLog = (\<lambda>ins d tps n. d) \<rparr>"

definition example_log :: "string \<Rightarrow> int \<Rightarrow> string \<Rightarrow> log" where
  "example_log h n d =
     \<lparr> removed = False, blockHash = h, blockNumber = n, data = d, topics = [] \<rparr>"

definition example_input :: "string \<Rightarrow> abi_input" where
  "example_input n = \<lparr> indexed = False, abi_type = ''uint256'', name = n \<rparr>"

section \<open>The transaction trigger\<close>



text \<open>\<^verbatim>\<open>/^0x/.test(s)\<close>.\<close>

definition starts_0x :: "string \<Rightarrow> bool" where
  "starts_0x s = (take 2 s = ''0x'')"
















section \<open>The declaration parser\<close>

text \<open>
  The regular expressions of the parsers are modelled by matchers that read the string
  from left to right. \<open>is_space\<close> is the class \<^verbatim>\<open>\s\<close> on code units below 256, which is
  also what \<^verbatim>\<open>trim\<close> removes; \<open>is_name_char\<close> is the class \<^verbatim>\<open>[a-zA-Z0-9_]\<close>.
\<close>

definition is_space :: "char \<Rightarrow> bool" where
  "is_space c = (code c \<in> {9, 10, 11, 12, 13, 32, 160})"

definition is_name_char :: "char \<Rightarrow> bool" where
  "is_name_char c =
     ((48 \<le> code c \<and> code c \<le> 57) \<or> (65 \<le> code c \<and> code c \<le> 90)
      \<or> (97 \<le> code c \<and> code c \<le> 122) \<or> c = CHR ''_'')"

text \<open>\<^verbatim>\<open>s.trim()\<close>.\<close>

definition trim :: "string \<Rightarrow> string" where
  "trim s = rev (dropWhile is_space (rev (dropWhile is_space s)))"

text \<open>\<^verbatim>\<open>s.split(/\s+/)\<close>: the pieces between the maximal runs of whitespace; a run at the
  start or at the end of the string leaves an empty piece there, and the empty string
  gives one empty piece.\<close>

function split_ws :: "string \<Rightarrow> string list" where
  "split_ws [] = [[]]"
| "split_ws (c # cs) =
     (if is_space c then [] # split_ws (dropWhile is_space cs)
      else (case split_ws cs of [] \<Rightarrow> [[c]] | p # ps \<Rightarrow> (c # p) # ps))"
  by pat_completeness auto
termination
  by (relation "measure length") (auto simp: less_Suc_eq_le length_dropWhile_le)

text \<open>The optional group \<^verbatim>\<open>(event +)?\<close>, when it is taken: the keyword, then one or more
  spaces (the space character only); the result is the rest of the string.\<close>

definition strip_keyword :: "string \<Rightarrow> string \<Rightarrow> string option" where
  "strip_keyword kw s =
     (if take (length kw) s = kw \<and> take 1 (drop (length kw) s) = '' ''
      then Some (dropWhile (\<lambda>c. c = CHR '' '') (drop (length kw) s))
      else None)"

text \<open>\<^verbatim>\<open>([a-zA-Z0-9_]+)\s*\(([^)]+)\)\<close>: the name, the text between the parentheses and the
  rest of the string after the closing parenthesis.\<close>

definition match_body :: "string \<Rightarrow> (string \<times> string \<times> string) option" where
  "match_body t =
     (let nm = takeWhile is_name_char t;
          t1 = dropWhile is_space (dropWhile is_name_char t)
      in if nm = [] then None
         else (case t1 of
                 [] \<Rightarrow> None
               | c # t2 \<Rightarrow>
                   if c \<noteq> CHR ''('' then None
                   else let ps = takeWhile (\<lambda>c. c \<noteq> CHR '')'') t2;
                            t3 = dropWhile (\<lambda>c. c \<noteq> CHR '')'') t2
                        in if ps = [] then None
                           else (case t3 of [] \<Rightarrow> None | _ # t4 \<Rightarrow> Some (nm, ps, t4))))"

text \<open>\<^verbatim>\<open>\s*;?\s*$\<close>.\<close>

definition match_event_tail :: "string \<Rightarrow> bool" where
  "match_event_tail r =
     (case dropWhile is_space r of
        [] \<Rightarrow> True
      | c # r' \<Rightarrow> c = CHR '';'' \<and> dropWhile is_space r' = [])"

definition match_event_from :: "string \<Rightarrow> (string \<times> string) option" where
  "match_event_from t =
     (case match_body t of
        None \<Rightarrow> None
      | Some (nm, ps, r) \<Rightarrow> if match_event_tail r then Some (nm, ps) else None)"

text \<open>
  The whole expression of line 51, \<^verbatim>\<open>/^\s*(event +)?([a-zA-Z0-9_]+)\s*\(([^)]+)\)\s*;?\s*$/\<close>:
  the groups 2 and 3 of the match. The expression is tried with the keyword group
  first and without it when that fails, as backtracking does.
\<close>

definition exec_event_regex :: "string \<Rightarrow> (string \<times> string) option" where
  "exec_event_regex s =
     (let s1 = dropWhile is_space s
      in case (case strip_keyword ''event'' s1 of None \<Rightarrow> None | Some t \<Rightarrow> match_event_from t) of
           Some m \<Rightarrow> Some m
         | None \<Rightarrow> match_event_from s1)"

text \<open>\<^verbatim>\<open>xs.map(g)\<close> for a callback that may throw: the first exception, in the order of the
  list, ends the call.\<close>

fun map_result :: "('a \<Rightarrow> error + 'b) \<Rightarrow> 'a list \<Rightarrow> error + 'b list" where
  "map_result g [] = Inr []"
| "map_result g (x # xs) =
     (case g x of
        Inl e \<Rightarrow> Inl e
      | Inr y \<Rightarrow> (case map_result g xs of Inl e \<Rightarrow> Inl e | Inr ys \<Rightarrow> Inr (y # ys)))"

text \<open>The callback of line 56 for one parameter, and \<^verbatim>\<open>parseEventDeclaration\<close> (lines 50
  to 76).\<close>

definition parse_event_param :: "string \<Rightarrow> error + abi_input" where
  "parse_event_param p =
     (let parts = split_ws (trim p)
      in if length parts \<noteq> 2 \<and> length parts \<noteq> 3 then Inl (InvalidEventParameter p)
         else if length parts = 3 \<and> parts ! 1 \<noteq> ''indexed'' then Inl (InvalidEventParameter p)
         else Inr \<lparr> indexed = (length parts = 3),
                    abi_type = parts ! 0,
                    name = parts ! (length parts - 1) \<rparr>)"

definition parseEventDeclaration :: "string \<Rightarrow> error + event_item" where
  "parseEventDeclaration eventDeclaration =
     (case exec_event_regex eventDeclaration of
        None \<Rightarrow> Inl InvalidEventDeclaration
      | Some (m2, m3) \<Rightarrow>
          (case map_result parse_event_param (split_on (CHR '','') m3) of
             Inl e \<Rightarrow> Inl e
           | Inr ins \<Rightarrow>
               Inr \<lparr> item_name = m2, inputs = ins, item_type = ''event'', anonymous = False \<rparr>))"


text \<open>
  The words of the specification. The whitespace-separated tokens of a string are its
  maximal runs of characters that are not whitespace. A parameter is well formed when it
  has two tokens, or three with \<open>indexed\<close> in the middle; its input has the first token
  as type, the last as name, and is indexed when there are three.
\<close>

function tokens :: "string \<Rightarrow> string list" where
  "tokens s =
     (case dropWhile is_space s of
        [] \<Rightarrow> []
      | c # cs \<Rightarrow> (c # takeWhile (\<lambda>x. \<not> is_space x) cs)
                   # tokens (dropWhile (\<lambda>x. \<not> is_space x) cs))"
  by pat_completeness auto
termination
proof (relation "measure length")
  show "wf (measure length)" by simp
next
  fix s :: string and c cs
  assume d: "dropWhile is_space s = c # cs"
  have "length (dropWhile (\<lambda>x. \<not> is_space x) cs) \<le> length cs"
    by (rule length_dropWhile_le)
  moreover have "length (c # cs) \<le> length s"
    using length_dropWhile_le [of is_space s] d by simp
  ultimately show "(dropWhile (\<lambda>x. \<not> is_space x) cs, s) \<in> measure length"
    by simp
qed

declare tokens.simps [simp del]

definition param_ok :: "string \<Rightarrow> bool" where
  "param_ok p =
     (length (tokens p) = 2 \<or> (length (tokens p) = 3 \<and> tokens p ! 1 = ''indexed''))"

definition param_of :: "string \<Rightarrow> abi_input" where
  "param_of p = \<lparr> indexed = (length (tokens p) = 3),
                   abi_type = hd (tokens p),
                   name = last (tokens p) \<rparr>"

text \<open>
  The shape of an event declaration: whitespace, the optional keyword \<open>event\<close> followed
  by spaces, a name of characters \<^verbatim>\<open>[A-Za-z0-9_]\<close>, whitespace, the parameter list in
  parentheses (not empty, without a closing parenthesis inside), whitespace, an
  optional semicolon, whitespace.
\<close>

definition event_shape :: "string \<Rightarrow> string \<Rightarrow> string \<Rightarrow> bool" where
  "event_shape s nm ps =
     (\<exists>w1 kw w2 w3 semi w4.
        s = w1 @ kw @ nm @ w2 @ ''('' @ ps @ '')'' @ w3 @ semi @ w4
        \<and> list_all is_space w1
        \<and> (kw = [] \<or> (\<exists>k. kw = ''event'' @ replicate (Suc k) (CHR '' '')))
        \<and> nm \<noteq> [] \<and> list_all is_name_char nm
        \<and> list_all is_space w2
        \<and> ps \<noteq> [] \<and> CHR '')'' \<notin> set ps
        \<and> list_all is_space w3
        \<and> (semi = [] \<or> semi = '';'')
        \<and> list_all is_space w4)"

section \<open>Function descriptors and callSmartContract\<close>






























section \<open>Properties of the fee computation\<close>

lemma foldl_pad_zeros:
  "foldl (\<lambda>a c. 10 * a + (of_char c - 48)) (a::nat) (replicate k (CHR ''0'')) = a * 10 ^ k"
  by (induction k arbitrary: a) simp_all

lemmas toWei_eval =
  toWei_ether_def is_digit_def code_def dec_val_def digit_val_def foldl_pad_zeros

lemma normalize_field_value:
  assumes "normalize_field f = Inr w"
  shows "(case f of None \<Rightarrow> w = None
          | Some v \<Rightarrow> \<exists>x. wei_value v = Some x \<and> w = Some (case v of NumV _ \<Rightarrow> WNum x | StrV _ \<Rightarrow> WStr x))"
proof (cases f)
  case None
  with assms show ?thesis by simp
next
  case (Some v)
  with assms show ?thesis
    by (cases v) (auto split: option.splits)
qed







text \<open>
  Claim C10, as the code has it. A priority fee supplied as the number zero is treated
  exactly as an absent one: the desired tip is the 75 gwei default. A priority fee
  supplied as the string \<open>0\<close> is not: normalisation replaces it by the decimal string of
  zero, which is a non-empty string and so passes the \<^verbatim>\<open>||\<close> test, and the desired tip
  is zero.
\<close>

theorem zero_priority_fee:
  "fee_bounds_of baseFee txGas budget (Some (WNum 0)) = fee_bounds_of baseFee txGas budget None
   \<and> compute_fees baseFee txGas budget (Some (WNum 0)) = compute_fees baseFee txGas budget None
   \<and> js_or (Some (WNum 0)) default_tip = default_tip
   \<and> Number_of default_tip = 75 * 10 ^ 9
   \<and> normalize_field (Some (StrV ''0'')) = Inr (Some (WStr 0))
   \<and> Number_of (js_or (Some (WStr 0)) default_tip) = 0
   \<and> map_option maxTip (fee_bounds_of baseFee txGas budget (Some (WStr 0))) =
       (if in_exact_range baseFee txGas budget None then Some 0 else None)"
proof -
  have z: "toWei_ether ''0'' = Some 0" by (simp add: toWei_eval)
  have n: "normalize_field (Some (StrV ''0'')) = Inr (Some (WStr 0))"
    by (simp add: z)
  have r: "in_exact_range baseFee txGas b (Some (WNum 0)) = in_exact_range baseFee txGas b None" for b
    by (simp add: in_exact_range_def exact_amount_def)
  have r': "in_exact_range baseFee txGas b (Some (WStr 0)) = in_exact_range baseFee txGas b None" for b
    by (simp add: in_exact_range_def exact_amount_def)
  have b: "fee_bounds_of baseFee txGas budget (Some (WNum 0)) = fee_bounds_of baseFee txGas budget None"
    by (cases budget) (simp_all add: fee_bounds_of_def r)
  have c: "compute_fees baseFee txGas budget (Some (WNum 0)) = compute_fees baseFee txGas budget None"
    by (simp add: compute_fees_def b)
  have m: "map_option maxTip (fee_bounds_of baseFee txGas budget (Some (WStr 0))) =
       (if in_exact_range baseFee txGas budget None then Some 0 else None)"
    by (cases budget) (simp_all add: fee_bounds_of_def r')
  from n b c m show ?thesis
    by (simp add: default_tip_def)
qed

text \<open>With the string \<open>0\<close> the desired tip is zero and not the default: under a budget of
  0.004 ether the transaction gets the priority fee 0, where an absent field gives
  75 gwei.\<close>

theorem zero_string_priority_fee_counterexample:
  "normalize_field (Some (StrV ''0'')) = Inr (Some (WStr 0))
   \<and> fee_bounds_of 100 24101 (Some (WNum 4000000000000000)) (Some (WStr 0)) =
       Some \<lparr> minFee = 30000000100, maxTip = 0, maxFee = 165968217086 \<rparr>
   \<and> compute_fees 100 24101 (Some (WNum 4000000000000000)) (Some (WStr 0)) =
       Some (Inr \<lparr> maxFeePerGas_out = 165968217086, maxPriorityFeePerGas_out = 0 \<rparr>)
   \<and> compute_fees 100 24101 (Some (WNum 4000000000000000)) None =
       Some (Inr \<lparr> maxFeePerGas_out = 165968217086, maxPriorityFeePerGas_out = 75000000000 \<rparr>)"
proof -
  have z: "toWei_ether ''0'' = Some 0" by (simp add: toWei_eval)
  show ?thesis
    by (simp add: z compute_fees_def fee_bounds_of_def in_exact_range_def exact_amount_def
        default_tip_def floor_tip_def)
qed

section \<open>Properties of the event trigger\<close>

lemma push_topics_append:
  "push_topics w pf ins acc =
     acc @ map (\<lambda>i. case pf (name i) of Some v \<Rightarrow> Some (encodeParameter w (abi_type i) v) | None \<Rightarrow> None)
             (filter indexed ins)"
  by (induction ins arbitrary: acc) simp_all

text \<open>
  The topic list of the code: the event-signature hash of the descriptor, then one
  topic for each indexed input, in declaration order: the encoding of the value the
  bag gives for the input's name when \<^verbatim>\<open>name in parameterFilters\<close> holds, and null
  otherwise. Inputs that are not indexed contribute nothing, so the list has length one
  plus the number of indexed inputs.
\<close>

lemma build_topics_shape:
  "build_topics w pf eventInfo =
     Some (encodeEventSignature w eventInfo)
       # map (\<lambda>i. case pf (name i) of Some v \<Rightarrow> Some (encodeParameter w (abi_type i) v) | None \<Rightarrow> None)
             (filter indexed (inputs eventInfo))
   \<and> length (build_topics w pf eventInfo) = 1 + length (filter indexed (inputs eventInfo))"
  by (simp add: build_topics_def push_topics_append)

lemma process_logs_sent:
  "n \<in> set (sent_of (process_logs w pf ins number logs np sent)) \<Longrightarrow>
     n \<in> set sent \<or> (rawEvent n \<in> set logs \<and> blockNumber (rawEvent n) \<le> number - 2)"
proof (induction logs arbitrary: np sent)
  case Nil
  then show ?case by (simp add: sent_of_def)
next
  case (Cons l logs)
  show ?case
  proof (cases "blockNumber l > number - 2")
    case True
    with Cons.prems have "n \<in> set (sent_of (process_logs w pf ins number logs (np @ [l]) sent))"
      by simp
    from Cons.IH [OF this] show ?thesis by auto
  next
    case False
    show ?thesis
    proof (cases "snd (confirm_entry w pf ins l)")
      case None
      with False Cons.prems show ?thesis by (simp add: sent_of_def)
    next
      case (Some ev)
      with False Cons.prems
      have "n \<in> set (sent_of (process_logs w pf ins number logs np
                (sent @ [\<lparr> rawEvent = l, spread = ev \<rparr>])))"
        by simp
      from Cons.IH [OF this] False show ?thesis by auto
    qed
  qed
qed

lemma process_logs_kept:
  "x \<in> set (kept_of (process_logs w pf ins number logs np sent)) \<Longrightarrow>
     x \<in> set np \<or> x \<in> set logs"
proof (induction logs arbitrary: np sent)
  case Nil
  then show ?case by (simp add: kept_of_def)
next
  case (Cons l logs)
  show ?case
  proof (cases "blockNumber l > number - 2")
    case True
    with Cons.prems have "x \<in> set (kept_of (process_logs w pf ins number logs (np @ [l]) sent))"
      by simp
    from Cons.IH [OF this] show ?thesis by auto
  next
    case False
    show ?thesis
    proof (cases "snd (confirm_entry w pf ins l)")
      case None
      with False Cons.prems show ?thesis by (simp add: kept_of_def)
    next
      case (Some ev)
      with False Cons.prems
      have "x \<in> set (kept_of (process_logs w pf ins number logs np
                (sent @ [\<lparr> rawEvent = l, spread = ev \<rparr>])))"
        by simp
      from Cons.IH [OF this] show ?thesis by auto
    qed
  qed
qed

lemma on_header_eq:
  "on_header w pf ins pendingLogs number =
     (if number = 0 then (pendingLogs, [])
      else (kept_of (process_logs w pf ins number pendingLogs [] []),
            sent_of (process_logs w pf ins number pendingLogs [] [])))"
  by (simp add: on_header_def kept_of_def sent_of_def split: pass_outcome.splits)

lemma on_header_sent:
  assumes "n \<in> set (snd (on_header w pf ins pendingLogs number))"
  shows "rawEvent n \<in> set pendingLogs \<and> number - blockNumber (rawEvent n) \<ge> 2"
proof -
  from assms have nz: "number \<noteq> 0" and
    "n \<in> set (sent_of (process_logs w pf ins number pendingLogs [] []))"
    by (auto simp: on_header_eq split: if_splits)
  from process_logs_sent [OF this(2)] show ?thesis by auto
qed

lemma on_header_kept:
  assumes "x \<in> set (fst (on_header w pf ins pendingLogs number))"
  shows "x \<in> set pendingLogs"
  using assms process_logs_kept [of x w pf ins number pendingLogs "[]" "[]"]
  by (auto simp: on_header_eq split: if_splits)

text \<open>
  Claim C4. Whatever the buffer holds, a message of the trigger emits a notification
  for an entry only if the message is a block header whose number is at least two above
  the entry's block number, and the entry was in the buffer: a log message emits
  nothing, and a header less than two blocks ahead leaves the entry unemitted.
\<close>

theorem emitted_only_when_confirmed:
  assumes "n \<in> set (snd (step w pf ins pendingLogs m))"
  shows "\<exists>number. m = NewBlockHeader number \<and> number - blockNumber (rawEvent n) \<ge> 2
           \<and> rawEvent n \<in> set pendingLogs"
proof (cases m)
  case (LogData l)
  with assms show ?thesis by simp
next
  case (NewBlockHeader number)
  with assms have "n \<in> set (snd (on_header w pf ins pendingLogs number))" by simp
  from on_header_sent [OF this] NewBlockHeader show ?thesis by simp
qed

theorem emitted_only_when_confirmed_witness:
  "\<lparr> rawEvent = example_log ''h1'' 5 ''x'', spread = Map.empty \<rparr>
     \<in> set (snd (step example_abi Map.empty [] [example_log ''h1'' 5 ''x''] (NewBlockHeader 7)))
   \<and> (\<exists>number. NewBlockHeader 7 = NewBlockHeader number
         \<and> number - blockNumber (example_log ''h1'' 5 ''x'') \<ge> 2)
   \<and> snd (step example_abi Map.empty [] [example_log ''h1'' 5 ''x''] (NewBlockHeader 6)) = []"
proof -
  have p: "\<lparr> rawEvent = example_log ''h1'' 5 ''x'', spread = Map.empty \<rparr>
     \<in> set (snd (step example_abi Map.empty [] [example_log ''h1'' 5 ''x''] (NewBlockHeader 7)))"
    by (simp add: on_header_def confirm_entry_def decoded_log_def example_log_def)
  have q: "snd (step example_abi Map.empty [] [example_log ''h1'' 5 ''x''] (NewBlockHeader 6)) = []"
    by (simp add: on_header_def confirm_entry_def decoded_log_def example_log_def)
  from emitted_only_when_confirmed [OF p] p q show ?thesis by simp
qed

text \<open>
  Claim C6 fails on the code for an indexed parameter whose name is a property every
  object inherits. The claim: the topic of an indexed input is the encoding of the
  caller's filter value when the input's name is a key of the filter bag, and null
  otherwise. The code tests \<^verbatim>\<open>input.name in this.fields.parameterFilters\<close>, which also
  holds for the names inherited from \<^verbatim>\<open>Object.prototype\<close>: for the event
  \<open>E(string indexed toString)\<close> and an empty bag, the topic is the encoding of the
  inherited function and not null. For a name that is not inherited the topic is null.
\<close>

theorem inherited_name_topic:
  "build_topics example_abi (plain_object Map.empty (\<lambda>k. ''[Function]''))
      \<lparr> item_name = ''E'',
        inputs = [\<lparr> indexed = True, abi_type = ''string'', name = ''toString'' \<rparr>],
        item_type = ''event'', anonymous = False \<rparr>
     = [Some ''E'', Some ''[Function]'']
   \<and> build_topics example_abi (plain_object Map.empty (\<lambda>k. ''[Function]''))
      \<lparr> item_name = ''E'',
        inputs = [\<lparr> indexed = True, abi_type = ''string'', name = ''value'' \<rparr>],
        item_type = ''event'', anonymous = False \<rparr>
     = [Some ''E'', None]"
  by (simp add: build_topics_def plain_object_def object_prototype_names_def example_abi_def)

text \<open>A pass is \<open>advance\<close> repeated: resuming at once after every notification gives the
  uninterrupted loop \<open>process_logs\<close>.\<close>

lemma process_logs_advance:
  "process_logs w pf ins number logs np sent =
     (case advance w pf ins number logs np of
        Awaiting n rest np' \<Rightarrow> process_logs w pf ins number rest np' (sent @ [n])
      | PassDone np' \<Rightarrow> Completed np' sent
      | PassLeft \<Rightarrow> Returned sent)"
  by (induction logs arbitrary: np) (simp_all split: option.splits)

text \<open>
  Claim C5 fails on the code when the removed log is handled while a confirmation pass
  is suspended. The claim: a log with the removed flag purges every buffered entry of
  its block hash, and a purged entry is never emitted later. The buffer holds \<open>h0\<close> of
  block 3 and \<open>h1\<close> of block 9. The header 10 starts a pass: it empties \<^verbatim>\<open>pendingLogs\<close>,
  notifies \<open>h0\<close> and is suspended at \<^verbatim>\<open>await\<close>, with \<open>h1\<close> in its locals. The removed log
  for the block of \<open>h1\<close> now filters the empty \<^verbatim>\<open>pendingLogs\<close>. The pass resumes, finds \<open>h1\<close>
  within the window and appends it to \<^verbatim>\<open>pendingLogs\<close> at line 220. The header 12 confirms
  \<open>h1\<close>, and it is emitted. When the removed log is handled after the pass has ended,
  \<open>h1\<close> is purged and only \<open>h0\<close> is emitted.
\<close>

theorem removed_during_pass_emitted:
  "map rawEvent (snd (occur_all example_abi Map.empty []
       \<lparr> buffer = [example_log ''h0'' 3 ''x'', example_log ''h1'' 9 ''y''], suspended = [] \<rparr>
       [HeaderArrives 10, LogArrives (example_log ''h1'' 9 ''y'' \<lparr> removed := True \<rparr>),
        NotificationDone 0, HeaderArrives 12]))
     = [example_log ''h0'' 3 ''x'', example_log ''h1'' 9 ''y'']
   \<and> map rawEvent (snd (occur_all example_abi Map.empty []
       \<lparr> buffer = [example_log ''h0'' 3 ''x'', example_log ''h1'' 9 ''y''], suspended = [] \<rparr>
       [HeaderArrives 10, NotificationDone 0,
        LogArrives (example_log ''h1'' 9 ''y'' \<lparr> removed := True \<rparr>), HeaderArrives 12]))
     = [example_log ''h0'' 3 ''x'']"
  by (simp add: on_log_def confirm_entry_def decoded_log_def example_log_def)

lemma match_inputs_trace:
  "fst (match_inputs w pf decoded ins ev) =
     map name (takeWhile (field_matches w pf decoded) (filtered_inputs pf ins)
               @ take 1 (dropWhile (field_matches w pf decoded) (filtered_inputs pf ins)))"
proof (induction ins arbitrary: ev)
  case Nil
  show ?case by (simp add: filtered_inputs_def)
next
  case (Cons i ins)
  show ?case
  proof (cases "pf (name i)")
    case None
    then show ?thesis using Cons.IH [of ev] by (simp add: filtered_inputs_def)
  next
    case (Some expected)
    show ?thesis
    proof (cases "field_matches w pf decoded i")
      case True
      obtain c r where m: "match_inputs w pf decoded ins (ev(name i \<mapsto> decoded (name i))) = (c, r)"
        by (cases "match_inputs w pf decoded ins (ev(name i \<mapsto> decoded (name i)))")
      have "fst (match_inputs w pf decoded ins (ev(name i \<mapsto> decoded (name i)))) =
          map name (takeWhile (field_matches w pf decoded) (filtered_inputs pf ins)
               @ take 1 (dropWhile (field_matches w pf decoded) (filtered_inputs pf ins)))"
        by (rule Cons.IH)
      then have c: "c = map name (takeWhile (field_matches w pf decoded) (filtered_inputs pf ins)
               @ take 1 (dropWhile (field_matches w pf decoded) (filtered_inputs pf ins)))"
        by (simp add: m)
      have f: "filtered_inputs pf (i # ins) = i # filtered_inputs pf ins"
        using Some by (simp add: filtered_inputs_def)
      have "fst (match_inputs w pf decoded (i # ins) ev) = name i # c"
        using Some True m by (simp add: field_matches_def)
      with c f True show ?thesis by simp
    next
      case False
      with Some show ?thesis
        by (simp add: filtered_inputs_def field_matches_def)
    qed
  qed
qed

lemma match_inputs_result:
  "snd (match_inputs w pf decoded ins ev) =
     (if list_all (field_matches w pf decoded) (filtered_inputs pf ins)
      then Some (\<lambda>k. if k \<in> name ` set (filtered_inputs pf ins) then Some (decoded k) else ev k)
      else None)"
proof (induction ins arbitrary: ev)
  case Nil
  show ?case by (simp add: filtered_inputs_def)
next
  case (Cons i ins)
  show ?case
  proof (cases "pf (name i)")
    case None
    then show ?thesis using Cons.IH [of ev] by (simp add: filtered_inputs_def)
  next
    case (Some expected)
    show ?thesis
    proof (cases "field_matches w pf decoded i")
      case True
      obtain c r where m: "match_inputs w pf decoded ins (ev(name i \<mapsto> decoded (name i))) = (c, r)"
        by (cases "match_inputs w pf decoded ins (ev(name i \<mapsto> decoded (name i)))")
      have "snd (match_inputs w pf decoded ins (ev(name i \<mapsto> decoded (name i)))) =
          (if list_all (field_matches w pf decoded) (filtered_inputs pf ins)
          then Some (\<lambda>k. if k \<in> name ` set (filtered_inputs pf ins) then Some (decoded k)
                          else (ev(name i \<mapsto> decoded (name i))) k)
          else None)"
        by (rule Cons.IH)
      then have r: "r = (if list_all (field_matches w pf decoded) (filtered_inputs pf ins)
          then Some (\<lambda>k. if k \<in> name ` set (filtered_inputs pf ins) then Some (decoded k)
                          else (ev(name i \<mapsto> decoded (name i))) k)
          else None)"
        by (simp add: m)
      have f: "filtered_inputs pf (i # ins) = i # filtered_inputs pf ins"
        using Some by (simp add: filtered_inputs_def)
      have "snd (match_inputs w pf decoded (i # ins) ev) = r"
        using Some True m by (simp add: field_matches_def)
      with r f True show ?thesis by (auto simp: fun_eq_iff)
    next
      case False
      with Some show ?thesis
        by (simp add: filtered_inputs_def field_matches_def)
    qed
  qed
qed

lemma payload_object_apply:
  "payload_object n k =
     (case spread n k of Some v \<Rightarrow> Some (Decoded v)
      | None \<Rightarrow> if k = ''_rawEvent'' then Some (RawLog (rawEvent n)) else None)"
  by (simp add: payload_object_def map_add_def split: option.splits)

text \<open>
  One confirmed entry. When some filtered input mismatches, the handler returns: no
  notification is sent for the entry, and by \<open>match_inputs_trace\<close> the inputs compared
  are the filtered inputs up to and including the first mismatch. When all match, one
  notification is appended, whose spread part holds the decoded values of exactly the
  filtered input names.
\<close>

lemma confirm_entry_mismatch:
  assumes "\<not> list_all (field_matches w pf (decoded_log w ins l)) (filtered_inputs pf ins)"
    and "blockNumber l \<le> number - 2"
  shows "process_logs w pf ins number (l # rest) np sent = Returned sent"
  using assms by (simp add: confirm_entry_def match_inputs_result)

lemma confirm_entry_match:
  assumes "list_all (field_matches w pf (decoded_log w ins l)) (filtered_inputs pf ins)"
    and "blockNumber l \<le> number - 2"
  shows "process_logs w pf ins number (l # rest) np sent =
         process_logs w pf ins number rest np
           (sent @ [\<lparr> rawEvent = l,
                      spread = (\<lambda>k. if k \<in> name ` set (filtered_inputs pf ins)
                                      then Some (decoded_log w ins l k) else None) \<rparr>])"
  using assms by (simp add: confirm_entry_def match_inputs_result)

lemma process_logs_all_match:
  assumes "\<forall>l \<in> set logs. blockNumber l \<le> number - 2 \<longrightarrow> snd (confirm_entry w pf ins l) \<noteq> None"
  shows "process_logs w pf ins number logs np sent =
     Completed (np @ filter (\<lambda>l. blockNumber l > number - 2) logs)
       (sent @ map (\<lambda>l. \<lparr> rawEvent = l, spread = the (snd (confirm_entry w pf ins l)) \<rparr>)
                 (filter (\<lambda>l. \<not> blockNumber l > number - 2) logs))"
  using assms
proof (induction logs arbitrary: np sent)
  case Nil
  show ?case by simp
next
  case (Cons l logs)
  then show ?case by (cases "blockNumber l > number - 2") auto
qed

text \<open>
  Claim C2 fails on the code. The claim: every entry of the buffer at the start of a
  confirmation pass is either re-appended (still within the two-block window) or
  confirmed and decoded, and none is discarded, also when a confirmed entry of the
  same pass fails its filter. The code leaves the whole handler through \<^verbatim>\<open>return\<close> at the
  first confirmed entry that fails its filter: the entries already re-appended to
  \<^verbatim>\<open>newPendingLogs\<close> and the entries not yet visited are lost. With the filter \<open>a = 1\<close>
  and head 10: entry B of block 10 is still pending and entry A of block 5 mismatches;
  the buffer is empty after the pass, whether A stands before or after B, and a
  matching confirmed entry C after A is neither notified nor kept. Without the
  mismatching entry, B is kept and C is notified.
\<close>

theorem pass_discards_after_mismatch:
  "on_header example_abi [''a'' \<mapsto> ''1''] [example_input ''a'']
      [example_log ''hA'' 5 ''2'', example_log ''hB'' 10 ''1''] 10 = ([], [])
   \<and> on_header example_abi [''a'' \<mapsto> ''1''] [example_input ''a'']
      [example_log ''hB'' 10 ''1'', example_log ''hA'' 5 ''2''] 10 = ([], [])
   \<and> on_header example_abi [''a'' \<mapsto> ''1''] [example_input ''a'']
      [example_log ''hA'' 5 ''2'', example_log ''hC'' 6 ''1''] 10 = ([], [])
   \<and> on_header example_abi [''a'' \<mapsto> ''1''] [example_input ''a'']
      [example_log ''hB'' 10 ''1'', example_log ''hC'' 6 ''1''] 10 =
        ([example_log ''hB'' 10 ''1''],
         [\<lparr> rawEvent = example_log ''hC'' 6 ''1'', spread = [''a'' \<mapsto> ''1''] \<rparr>])"
  by (simp add: on_header_def confirm_entry_def decoded_log_def example_abi_def example_log_def
      example_input_def)

text \<open>
  Claim C3 fails on the code in one case. The claim: for a confirmed entry, a
  mismatching filtered field stops the walk with no notification and no later
  comparison, and when every filtered field matches exactly one notification is emitted
  that carries the raw log and the decoded values of the filtered parameter names.
  The lemmas above prove the walk and the spread part. The object sent is
  \<^verbatim>\<open>{_rawEvent: logEntry, ...event}\<close>: for an event parameter named \<open>_rawEvent\<close> with a
  filter value, the spread writes the decoded value over the raw log, and the
  notification does not carry the raw log.
\<close>

theorem raw_log_overwritten:
  "on_header example_abi [''_rawEvent'' \<mapsto> ''1''] [example_input ''_rawEvent'']
      [example_log ''hA'' 5 ''1''] 10 =
        ([], [\<lparr> rawEvent = example_log ''hA'' 5 ''1'', spread = [''_rawEvent'' \<mapsto> ''1''] \<rparr>])
   \<and> payload_object \<lparr> rawEvent = example_log ''hA'' 5 ''1'', spread = [''_rawEvent'' \<mapsto> ''1''] \<rparr>
        = [''_rawEvent'' \<mapsto> Decoded ''1'']"
  by (auto simp: on_header_def confirm_entry_def decoded_log_def example_abi_def example_log_def
      example_input_def payload_object_def map_add_def fun_eq_iff)

section \<open>Properties of the transaction trigger\<close>

lemma starts_0x_nonempty: "starts_0x a \<Longrightarrow> a \<noteq> []"
  by (auto simp: starts_0x_def)









section \<open>Properties of the declaration parser\<close>

lemma span_append:
  assumes "list_all P xs" and "ys = [] \<or> \<not> P (hd ys)"
  shows "takeWhile P (xs @ ys) = xs" and "dropWhile P (xs @ ys) = ys"
proof -
  from assms(1) have all: "\<forall>x\<in>set xs. P x" by (simp add: list_all_iff)
  from assms(2) have t: "takeWhile P ys = []" by (cases ys) auto
  from assms(2) have d: "dropWhile P ys = ys" by (cases ys) auto
  show "takeWhile P (xs @ ys) = xs" using all t by simp
  show "dropWhile P (xs @ ys) = ys" using all d by simp
qed

lemma list_all_takeWhile: "list_all P (takeWhile P xs)"
  by (induction xs) simp_all

lemma dropWhile_hd: "dropWhile P xs = [] \<or> \<not> P (hd (dropWhile P xs))"
  by (induction xs) simp_all

lemma takeWhile_eq_replicate:
  "takeWhile (\<lambda>x. x = c) xs = replicate (length (takeWhile (\<lambda>x. x = c) xs)) c"
  by (induction xs) simp_all

lemma name_char_not_space: "is_name_char c \<Longrightarrow> \<not> is_space c"
  by (auto simp: is_name_char_def is_space_def code_def)

lemma space_not_name_char: "is_space c \<Longrightarrow> \<not> is_name_char c"
  using name_char_not_space by blast

lemma special_chars:
  "\<not> is_name_char (CHR ''('')" "\<not> is_space (CHR ''('')" "\<not> is_space (CHR '';'')"
  "\<not> is_name_char (CHR '' '')" "is_space (CHR '' '')" "\<not> is_space (CHR ''e'')"
  by (simp_all add: is_name_char_def is_space_def code_def)

text \<open>The matcher finds every declaration of the shape.\<close>

lemma match_event_tail_complete:
  assumes "list_all is_space w3" "semi = [] \<or> semi = '';''" "list_all is_space w4"
  shows "match_event_tail (w3 @ semi @ w4)"
proof (cases "semi = []")
  case True
  have e: "dropWhile is_space (w3 @ [] @ w4) = []"
    using assms by (auto simp: list_all_iff)
  show ?thesis unfolding match_event_tail_def True e by simp
next
  case False
  with assms(2) have s: "semi = '';''" by simp
  have a: "dropWhile is_space (w3 @ (CHR '';'' # w4)) = CHR '';'' # w4"
    by (rule span_append) (use assms special_chars in simp_all)
  have b: "dropWhile is_space w4 = []"
    using assms by (auto simp: list_all_iff)
  have a': "dropWhile is_space (w3 @ '';'' @ w4) = CHR '';'' # w4"
    using a by simp
  show ?thesis unfolding match_event_tail_def s a' by (simp only: list.case b simp_thms)
qed

lemma match_body_complete:
  assumes nm: "nm \<noteq> []" "list_all is_name_char nm"
    and w2: "list_all is_space w2"
    and ps: "ps \<noteq> []" "CHR '')'' \<notin> set ps"
  shows "match_body (nm @ w2 @ ''('' @ ps @ '')'' @ r) = Some (nm, ps, r)"
proof -
  let ?after = "w2 @ ''('' @ ps @ '')'' @ r"
  have h: "?after = [] \<or> \<not> is_name_char (hd ?after)"
    using w2 special_chars(1) by (cases w2) (auto dest: space_not_name_char)
  have t: "takeWhile is_name_char (nm @ ?after) = nm"
    and d: "dropWhile is_name_char (nm @ ?after) = ?after"
    using span_append [OF nm(2) h] by simp_all
  have d2: "dropWhile is_space (w2 @ (CHR ''('' # ps @ '')'' @ r)) = CHR ''('' # ps @ '')'' @ r"
    by (rule span_append) (use w2 special_chars in simp_all)
  have pp: "list_all (\<lambda>c. c \<noteq> CHR '')'') ps"
    using ps(2) by (auto simp: list_all_iff)
  have t3: "takeWhile (\<lambda>c. c \<noteq> CHR '')'') (ps @ (CHR '')'' # r)) = ps"
    and d3: "dropWhile (\<lambda>c. c \<noteq> CHR '')'') (ps @ (CHR '')'' # r)) = CHR '')'' # r"
    using span_append [OF pp, of "CHR '')'' # r"] by simp_all
  show ?thesis
    unfolding match_body_def t d
    using nm(1) ps(1) d2 t3 d3 by (simp add: Let_def)
qed

lemma match_event_from_complete:
  assumes "nm \<noteq> []" "list_all is_name_char nm" "list_all is_space w2"
    "ps \<noteq> []" "CHR '')'' \<notin> set ps"
    "list_all is_space w3" "semi = [] \<or> semi = '';''" "list_all is_space w4"
  shows "match_event_from (nm @ w2 @ ''('' @ ps @ '')'' @ w3 @ semi @ w4) = Some (nm, ps)"
  using match_body_complete [OF assms(1-5), of "w3 @ semi @ w4"]
    match_event_tail_complete [OF assms(6-8)]
  by (simp add: match_event_from_def)

lemma match_body_name_start:
  assumes "match_body t = Some (nm, ps, r)"
  shows "t \<noteq> [] \<and> is_name_char (hd t)"
proof -
  from assms have "takeWhile is_name_char t \<noteq> []"
    by (auto simp: match_body_def Let_def split: if_splits)
  then show ?thesis by (cases t) (auto split: if_splits)
qed

lemma strip_keyword_complete:
  assumes "t = [] \<or> hd t \<noteq> CHR '' ''"
  shows "strip_keyword kw (kw @ replicate (Suc k) (CHR '' '') @ t) = Some t"
proof -
  have "dropWhile (\<lambda>c. c = CHR '' '') (replicate (Suc k) (CHR '' '') @ t) = t"
    by (rule span_append) (use assms in \<open>simp_all add: list_all_iff\<close>)
  then show ?thesis by (simp add: strip_keyword_def)
qed

lemma strip_keyword_sound:
  assumes "strip_keyword kw s = Some t"
  shows "\<exists>k. s = kw @ replicate (Suc k) (CHR '' '') @ t"
proof -
  let ?r = "drop (length kw) s"
  from assms have k: "take (length kw) s = kw" and sp: "take 1 ?r = '' ''"
    and t: "t = dropWhile (\<lambda>c. c = CHR '' '') ?r"
    by (auto simp: strip_keyword_def split: if_splits)
  let ?sp = "takeWhile (\<lambda>c. c = CHR '' '') ?r"
  from sp have "?sp \<noteq> []" by (cases ?r) auto
  then obtain k where len: "length ?sp = Suc k" by (cases ?sp) auto
  have "?sp = replicate (Suc k) (CHR '' '')"
    using takeWhile_eq_replicate [of "CHR '' ''" ?r] len by simp
  moreover have "s = take (length kw) s @ ?sp @ dropWhile (\<lambda>c. c = CHR '' '') ?r"
    by simp
  ultimately have "s = kw @ replicate (Suc k) (CHR '' '') @ t"
    using k t by simp
  then show ?thesis ..
qed

lemma match_body_sound:
  assumes "match_body t = Some (nm, ps, r)"
  shows "\<exists>w2. t = nm @ w2 @ ''('' @ ps @ '')'' @ r \<and> nm \<noteq> [] \<and> list_all is_name_char nm
           \<and> list_all is_space w2 \<and> ps \<noteq> [] \<and> CHR '')'' \<notin> set ps"
proof -
  let ?t1 = "dropWhile is_space (dropWhile is_name_char t)"
  from assms have nm: "nm = takeWhile is_name_char t" "nm \<noteq> []"
    by (auto simp: match_body_def Let_def split: if_splits list.splits)
  from assms obtain t2 where t1: "?t1 = CHR ''('' # t2"
    by (auto simp: match_body_def Let_def split: if_splits list.splits)
  from assms t1 obtain x where ps: "ps = takeWhile (\<lambda>c. c \<noteq> CHR '')'') t2" "ps \<noteq> []"
    and t3': "dropWhile (\<lambda>c. c \<noteq> CHR '')'') t2 = x # r"
    by (auto simp: match_body_def Let_def split: if_splits list.splits)
  from dropWhile_hd [of "\<lambda>c. c \<noteq> CHR '')''" t2] t3' have "x = CHR '')''" by simp
  with t3' have t3: "dropWhile (\<lambda>c. c \<noteq> CHR '')'') t2 = CHR '')'' # r" by simp
  let ?w2 = "takeWhile is_space (dropWhile is_name_char t)"
  have "t = takeWhile is_name_char t @ ?w2 @ ?t1" by simp
  also have "?t1 = CHR ''('' # (takeWhile (\<lambda>c. c \<noteq> CHR '')'') t2 @ dropWhile (\<lambda>c. c \<noteq> CHR '')'') t2)"
    using t1 by simp
  finally have "t = nm @ ?w2 @ ''('' @ ps @ '')'' @ r"
    using nm ps t3 by simp
  moreover have "list_all is_name_char nm" "list_all is_space ?w2"
    using nm by (simp_all add: list_all_takeWhile)
  moreover have "CHR '')'' \<notin> set ps"
    using ps(1) by (auto dest: set_takeWhileD)
  ultimately show ?thesis using nm(2) ps(2) by blast
qed

lemma match_event_tail_sound:
  assumes "match_event_tail r"
  shows "\<exists>w3 semi w4. r = w3 @ semi @ w4 \<and> list_all is_space w3
           \<and> (semi = [] \<or> semi = '';'') \<and> list_all is_space w4"
proof (cases "dropWhile is_space r")
  case Nil
  then have "list_all is_space r" by (simp add: list_all_iff)
  then have "r = r @ [] @ [] \<and> list_all is_space r \<and> ([] = [] \<or> [] = '';'') \<and> list_all is_space []"
    by simp
  then show ?thesis by blast
next
  case (Cons c r')
  with assms have c: "c = CHR '';''" and r': "dropWhile is_space r' = []"
    by (simp_all add: match_event_tail_def)
  have "r = takeWhile is_space r @ dropWhile is_space r" by simp
  with Cons c have "r = takeWhile is_space r @ '';'' @ r'" by simp
  moreover have "list_all is_space r'" using r' by (simp add: list_all_iff)
  ultimately show ?thesis using list_all_takeWhile [of is_space r] by blast
qed

lemma match_event_from_sound:
  assumes "match_event_from t = Some (nm, ps)"
  shows "\<exists>w2 w3 semi w4. t = nm @ w2 @ ''('' @ ps @ '')'' @ w3 @ semi @ w4
           \<and> nm \<noteq> [] \<and> list_all is_name_char nm \<and> list_all is_space w2
           \<and> ps \<noteq> [] \<and> CHR '')'' \<notin> set ps \<and> list_all is_space w3
           \<and> (semi = [] \<or> semi = '';'') \<and> list_all is_space w4"
proof -
  from assms obtain r where b: "match_body t = Some (nm, ps, r)" and tl: "match_event_tail r"
    by (auto simp: match_event_from_def split: option.splits if_splits)
  from match_body_sound [OF b] obtain w2 where
    w2: "t = nm @ w2 @ ''('' @ ps @ '')'' @ r" "nm \<noteq> []" "list_all is_name_char nm"
      "list_all is_space w2" "ps \<noteq> []" "CHR '')'' \<notin> set ps"
    by blast
  from match_event_tail_sound [OF tl] obtain w3 semi w4 where
    r: "r = w3 @ semi @ w4" "list_all is_space w3" "semi = [] \<or> semi = '';''" "list_all is_space w4"
    by blast
  from w2 r show ?thesis by blast
qed

lemma event_keyword_name_chars: "list_all is_name_char ''event''"
  by (simp add: is_name_char_def code_def)

lemma hd_dropWhile_in: "dropWhile P xs \<noteq> [] \<Longrightarrow> hd (dropWhile P xs) \<in> set xs"
  by (induction xs) (auto split: if_splits)

lemma strip_keyword_rest:
  assumes "strip_keyword kw (kw @ r) = Some t"
  shows "t = dropWhile (\<lambda>c. c = CHR '' '') r"
  using assms by (simp add: strip_keyword_def split: if_splits)

lemma exec_event_regex_sound:
  assumes "exec_event_regex s = Some (nm, ps)"
  shows "event_shape s nm ps"
proof -
  let ?w1 = "takeWhile is_space s" and ?s1 = "dropWhile is_space s"
  have s: "s = ?w1 @ ?s1" by simp
  have w1: "list_all is_space ?w1" by (rule list_all_takeWhile)
  from assms consider
    (kw) t where "strip_keyword ''event'' ?s1 = Some t" "match_event_from t = Some (nm, ps)"
    | (plain) "match_event_from ?s1 = Some (nm, ps)"
    by (auto simp: exec_event_regex_def Let_def split: option.splits)
  then show ?thesis
  proof cases
    case kw
    from strip_keyword_sound [OF kw(1)] obtain k where
      k: "?s1 = ''event'' @ replicate (Suc k) (CHR '' '') @ t" by blast
    from match_event_from_sound [OF kw(2)] obtain w2 w3 semi w4 where
      t: "t = nm @ w2 @ ''('' @ ps @ '')'' @ w3 @ semi @ w4"
      and c: "nm \<noteq> []" "list_all is_name_char nm" "list_all is_space w2"
        "ps \<noteq> []" "CHR '')'' \<notin> set ps" "list_all is_space w3"
        "semi = [] \<or> semi = '';''" "list_all is_space w4"
      by blast
    have "s = ?w1 @ (''event'' @ replicate (Suc k) (CHR '' '')) @ nm @ w2 @ ''('' @ ps @ '')'' @ w3 @ semi @ w4"
      using s k t by simp
    with w1 c show ?thesis unfolding event_shape_def by blast
  next
    case plain
    from match_event_from_sound [OF plain] obtain w2 w3 semi w4 where
      t: "?s1 = nm @ w2 @ ''('' @ ps @ '')'' @ w3 @ semi @ w4"
      and c: "nm \<noteq> []" "list_all is_name_char nm" "list_all is_space w2"
        "ps \<noteq> []" "CHR '')'' \<notin> set ps" "list_all is_space w3"
        "semi = [] \<or> semi = '';''" "list_all is_space w4"
      by blast
    have "s = ?w1 @ [] @ nm @ w2 @ ''('' @ ps @ '')'' @ w3 @ semi @ w4"
      using s t by simp
    with w1 c show ?thesis unfolding event_shape_def by blast
  qed
qed

lemma exec_event_regex_complete:
  assumes "event_shape s nm ps"
  shows "exec_event_regex s = Some (nm, ps)"
proof -
  from assms obtain w1 kw w2 w3 semi w4 where
    s: "s = w1 @ kw @ nm @ w2 @ ''('' @ ps @ '')'' @ w3 @ semi @ w4"
    and w1: "list_all is_space w1"
    and kw: "kw = [] \<or> (\<exists>k. kw = ''event'' @ replicate (Suc k) (CHR '' ''))"
    and c: "nm \<noteq> []" "list_all is_name_char nm" "list_all is_space w2"
      "ps \<noteq> []" "CHR '')'' \<notin> set ps" "list_all is_space w3"
      "semi = [] \<or> semi = '';''" "list_all is_space w4"
    unfolding event_shape_def by blast
  let ?body = "nm @ w2 @ ''('' @ ps @ '')'' @ w3 @ semi @ w4"
  have m: "match_event_from ?body = Some (nm, ps)"
    by (rule match_event_from_complete [OF c])
  have hdnm: "is_name_char (hd nm)"
    using c(1,2) by (cases nm) simp_all
  have hdbody: "hd ?body = hd nm" using c(1) by simp
  show ?thesis
  proof (cases "kw = []")
    case False
    with kw obtain k where k: "kw = ''event'' @ replicate (Suc k) (CHR '' '')" by blast
    have "dropWhile is_space (w1 @ (kw @ ?body)) = kw @ ?body"
      by (rule span_append) (use w1 k special_chars in simp_all)
    then have s1: "dropWhile is_space s = ''event'' @ replicate (Suc k) (CHR '' '') @ ?body"
      using s k by simp
    have "?body = [] \<or> hd ?body \<noteq> CHR '' ''"
      using hdnm hdbody special_chars(4) by metis
    from strip_keyword_complete [OF this, of "''event''" k]
    have "strip_keyword ''event'' (dropWhile is_space s) = Some ?body"
      using s1 by simp
    with m show ?thesis by (simp add: exec_event_regex_def)
  next
    case True
    have "dropWhile is_space (w1 @ ?body) = ?body"
      by (rule span_append) (use w1 hdnm hdbody name_char_not_space in auto)
    then have s1: "dropWhile is_space s = ?body" using s True by simp
    have "(case strip_keyword ''event'' ?body of None \<Rightarrow> None | Some t \<Rightarrow> match_event_from t) = None"
    proof (cases "strip_keyword ''event'' ?body")
      case None
      then show ?thesis by simp
    next
      case (Some t)
      from strip_keyword_sound [OF Some] obtain k where
        k: "?body = ''event'' @ (replicate (Suc k) (CHR '' '') @ t)" by auto
      let ?after = "w2 @ ''('' @ ps @ '')'' @ w3 @ semi @ w4"
      have h: "?after = [] \<or> \<not> is_name_char (hd ?after)"
        using c(3) special_chars(1) by (cases w2) (auto dest: space_not_name_char)
      have "takeWhile is_name_char (nm @ ?after) = nm"
        using span_append(1) [OF c(2) h] by simp
      moreover have "takeWhile is_name_char (''event'' @ (replicate (Suc k) (CHR '' '') @ t)) = ''event''"
        by (rule span_append) (use event_keyword_name_chars special_chars in simp_all)
      ultimately have nm: "nm = ''event''" using k by simp
      from Some nm have "strip_keyword ''event'' (''event'' @ ((w2 @ ''('') @ ps @ '')'' @ w3 @ semi @ w4)) = Some t"
        by simp
      from strip_keyword_rest [OF this]
      have t: "t = dropWhile (\<lambda>c. c = CHR '' '') ((w2 @ ''('') @ ps @ '')'' @ w3 @ semi @ w4)" .
      have "dropWhile (\<lambda>c. c = CHR '' '') ((w2 @ ''('') @ ps @ '')'' @ w3 @ semi @ w4)
            = dropWhile (\<lambda>c. c = CHR '' '') (w2 @ ''('') @ ps @ '')'' @ w3 @ semi @ w4"
        by (rule dropWhile_append1 [of "CHR ''(''"]) simp_all
      with t have t': "t = dropWhile (\<lambda>c. c = CHR '' '') (w2 @ ''('') @ ps @ '')'' @ w3 @ semi @ w4"
        by simp
      have ne: "dropWhile (\<lambda>c. c = CHR '' '') (w2 @ ''('') \<noteq> []"
        by (simp add: dropWhile_eq_Nil_conv)
      from hd_dropWhile_in [OF ne]
      have "\<not> is_name_char (hd (dropWhile (\<lambda>c. c = CHR '' '') (w2 @ ''('')))"
        using c(3) special_chars(1) by (auto simp: list_all_iff dest: space_not_name_char)
      with t' ne have "\<not> is_name_char (hd t)" by simp
      then have "match_body t = None"
        using match_body_name_start [of t] by (cases "match_body t") auto
      with Some show ?thesis by (simp add: match_event_from_def)
    qed
    with s1 m show ?thesis by (simp add: exec_event_regex_def)
  qed
qed

lemma exec_event_regex_iff:
  "exec_event_regex s = Some (nm, ps) \<longleftrightarrow> event_shape s nm ps"
  using exec_event_regex_sound exec_event_regex_complete by blast

lemma tokens_Nil: "tokens [] = []"
  by (simp add: tokens.simps)

lemma tokens_Cons_nonspace:
  "\<not> is_space c \<Longrightarrow>
     tokens (c # cs) = (c # takeWhile (\<lambda>x. \<not> is_space x) cs) # tokens (dropWhile (\<lambda>x. \<not> is_space x) cs)"
  by (simp add: tokens.simps [of "c # cs"])

lemma tokens_dropWhile: "tokens (dropWhile is_space s) = tokens s"
  by (simp add: tokens.simps [of s] tokens.simps [of "dropWhile is_space s"])

lemma tokens_all_space:
  assumes "list_all is_space s"
  shows "tokens s = []"
proof -
  have e: "dropWhile is_space s = []" using assms by (simp add: list_all_iff)
  show ?thesis by (subst tokens.simps) (simp only: e list.case)
qed

lemma last_dropWhile: "dropWhile P xs \<noteq> [] \<Longrightarrow> last (dropWhile P xs) = last xs"
  by (induction xs) (auto split: if_splits)

lemma split_ws_tokens:
  "s \<noteq> [] \<Longrightarrow> \<not> is_space (last s) \<Longrightarrow>
     split_ws s = (if is_space (hd s) then [] # tokens s else tokens s)"
proof (induction s rule: split_ws.induct)
  case 1
  then show ?case by simp
next
  case (2 c cs)
  show ?case
  proof (cases "is_space c")
    case True
    let ?d = "dropWhile is_space cs"
    from True "2.prems" have cs: "cs \<noteq> []" by auto
    with "2.prems" have lcs: "\<not> is_space (last cs)" by simp
    have d: "?d \<noteq> []"
      using cs lcs last_in_set [OF cs] by (auto simp: dropWhile_eq_Nil_conv)
    have ld: "\<not> is_space (last ?d)" using last_dropWhile [OF d] lcs by simp
    have hd: "\<not> is_space (hd ?d)" using dropWhile_hd [of is_space cs] d by blast
    from "2.IH"(1) [OF True d ld] hd have "split_ws ?d = tokens ?d" by simp
    moreover have "tokens (c # cs) = tokens ?d"
      using True tokens_dropWhile [of "c # cs"] by simp
    ultimately show ?thesis using True by simp
  next
    case False
    show ?thesis
    proof (cases cs)
      case Nil
      with False show ?thesis by (simp add: tokens_Cons_nonspace tokens_Nil)
    next
      case (Cons h cs')
      with "2.prems" have l: "\<not> is_space (last cs)" by simp
      from "2.IH"(2) [OF False _ l] Cons
      have ih: "split_ws cs = (if is_space h then [] # tokens cs else tokens cs)" by simp
      show ?thesis
      proof (cases "is_space h")
        case True
        with ih False Cons show ?thesis by (simp add: tokens_Cons_nonspace)
      next
        case h: False
        with ih Cons have "split_ws cs = (h # takeWhile (\<lambda>x. \<not> is_space x) cs')
              # tokens (dropWhile (\<lambda>x. \<not> is_space x) cs')"
          by (simp add: tokens_Cons_nonspace)
        with False h Cons show ?thesis by (simp add: tokens_Cons_nonspace)
      qed
    qed
  qed
qed

lemma tokens_append_space:
  "list_all is_space w \<Longrightarrow> tokens (q @ w) = tokens q"
proof (induction q rule: tokens.induct)
  case (1 q)
  show ?case
  proof (cases "dropWhile is_space q")
    case Nil
    then have "list_all is_space (q @ w)" "list_all is_space q"
      using "1.prems" by (auto simp: list_all_iff)
    then show ?thesis by (simp add: tokens_all_space)
  next
    case (Cons c cs)
    then have dq: "dropWhile is_space (q @ w) = c # (cs @ w)"
      by (induction q) (auto split: if_splits)
    have ih: "tokens (dropWhile (\<lambda>x. \<not> is_space x) cs @ w) = tokens (dropWhile (\<lambda>x. \<not> is_space x) cs)"
      by (rule "1.IH" [OF Cons "1.prems"])
    have tw: "takeWhile (\<lambda>x. \<not> is_space x) w = []" "dropWhile (\<lambda>x. \<not> is_space x) w = w"
      using "1.prems" by (cases w; simp)+
    have "takeWhile (\<lambda>x. \<not> is_space x) (cs @ w) = takeWhile (\<lambda>x. \<not> is_space x) cs
        \<and> tokens (dropWhile (\<lambda>x. \<not> is_space x) (cs @ w)) = tokens (dropWhile (\<lambda>x. \<not> is_space x) cs)"
    proof (cases "\<forall>x\<in>set cs. \<not> is_space x")
      case True
      have a: "takeWhile (\<lambda>x. \<not> is_space x) (cs @ w) = cs @ takeWhile (\<lambda>x. \<not> is_space x) w"
        using True by simp
      have b: "dropWhile (\<lambda>x. \<not> is_space x) (cs @ w) = dropWhile (\<lambda>x. \<not> is_space x) w"
        using True by simp
      have c: "takeWhile (\<lambda>x. \<not> is_space x) cs = cs" using True by simp
      have d: "dropWhile (\<lambda>x. \<not> is_space x) cs = []" using True by simp
      show ?thesis unfolding a b c d tw
        using "1.prems" by (simp add: tokens_all_space tokens_Nil)
    next
      case False
      then obtain x where x: "x \<in> set cs" "\<not> \<not> is_space x" by blast
      have "takeWhile (\<lambda>x. \<not> is_space x) (cs @ w) = takeWhile (\<lambda>x. \<not> is_space x) cs"
        by (rule takeWhile_append1 [where P = "\<lambda>x. \<not> is_space x", OF x])
      moreover have "dropWhile (\<lambda>x. \<not> is_space x) (cs @ w) = dropWhile (\<lambda>x. \<not> is_space x) cs @ w"
        by (rule dropWhile_append1 [where P = "\<lambda>x. \<not> is_space x", OF x])
      ultimately show ?thesis using ih by simp
    qed
    then show ?thesis
      by (simp add: tokens.simps [of "q @ w"] tokens.simps [of q] dq Cons)
  qed
qed

lemma trim_decompose:
  "\<exists>w. dropWhile is_space p = trim p @ w \<and> list_all is_space w"
proof -
  let ?d = "dropWhile is_space p"
  have "rev (takeWhile is_space (rev ?d) @ dropWhile is_space (rev ?d)) = rev (rev ?d)"
    by (simp only: takeWhile_dropWhile_id)
  then have "rev (dropWhile is_space (rev ?d)) @ rev (takeWhile is_space (rev ?d)) = ?d"
    by (simp only: rev_append rev_rev_ident)
  then have "?d = trim p @ rev (takeWhile is_space (rev ?d))"
    by (simp only: trim_def)
  moreover have "list_all is_space (rev (takeWhile is_space (rev ?d)))"
    using list_all_takeWhile [of is_space "rev ?d"] by (simp add: list_all_iff)
  ultimately show ?thesis by blast
qed

lemma tokens_trim: "tokens (trim p) = tokens p"
proof -
  from trim_decompose [of p] obtain w where
    w: "dropWhile is_space p = trim p @ w" "list_all is_space w" by blast
  have "tokens p = tokens (trim p @ w)" using tokens_dropWhile [of p] w(1) by simp
  with tokens_append_space [OF w(2)] show ?thesis by simp
qed

lemma trim_ends:
  assumes "trim p \<noteq> []"
  shows "\<not> is_space (hd (trim p))" and "\<not> is_space (last (trim p))"
proof -
  let ?d = "dropWhile is_space p" and ?e = "dropWhile is_space (rev (dropWhile is_space p))"
  from assms have e: "?e \<noteq> []" by (simp add: trim_def)
  have "last (trim p) = hd ?e" using e by (simp add: trim_def last_rev)
  moreover have "\<not> is_space (hd ?e)" using dropWhile_hd [of is_space "rev ?d"] e by blast
  ultimately show "\<not> is_space (last (trim p))" by simp
  from trim_decompose [of p] obtain w where w: "?d = trim p @ w" by blast
  with assms have "?d \<noteq> []" "hd ?d = hd (trim p)" by simp_all
  moreover have "?d = [] \<or> \<not> is_space (hd ?d)" by (rule dropWhile_hd)
  ultimately show "\<not> is_space (hd (trim p))" by metis
qed

lemma split_ws_trim:
  "split_ws (trim p) = (if tokens p = [] then [[]] else tokens p)"
proof (cases "trim p = []")
  case True
  with tokens_trim [of p] show ?thesis by (simp add: tokens_Nil)
next
  case False
  from trim_ends [OF False] split_ws_tokens [OF False]
  have "split_ws (trim p) = tokens (trim p)" by simp
  moreover have "tokens (trim p) \<noteq> []"
    using False trim_ends(1) [OF False] by (cases "trim p") (simp_all add: tokens_Cons_nonspace)
  ultimately show ?thesis using tokens_trim [of p] by simp
qed

lemma parse_event_param_eq:
  "parse_event_param p = (if param_ok p then Inr (param_of p) else Inl (InvalidEventParameter p))"
proof (cases "tokens p = []")
  case True
  then show ?thesis
    by (simp add: parse_event_param_def split_ws_trim param_ok_def)
next
  case False
  then have "tokens p ! 0 = hd (tokens p)" "tokens p ! (length (tokens p) - 1) = last (tokens p)"
    by (simp_all add: hd_conv_nth last_conv_nth)
  with False show ?thesis
    by (auto simp: parse_event_param_def split_ws_trim param_ok_def param_of_def Let_def)
qed

lemma map_result_all:
  assumes "list_all ok xs" and "\<And>x. ok x \<Longrightarrow> g x = Inr (h x)"
  shows "map_result g xs = Inr (map h xs)"
  using assms(1) by (induction xs) (simp_all add: assms(2))

lemma map_result_some_fails:
  assumes "\<not> list_all ok xs" and "\<And>x. ok x \<Longrightarrow> g x = Inr (h x)"
    and "\<And>x. \<not> ok x \<Longrightarrow> \<exists>e. g x = Inl e"
  shows "\<exists>e. map_result g xs = Inl e"
  using assms(1)
proof (induction xs)
  case Nil
  then show ?case by simp
next
  case (Cons x xs)
  show ?case
  proof (cases "ok x")
    case True
    with Cons.prems have "\<not> list_all ok xs" by simp
    from Cons.IH [OF this] True assms(2) [OF True] show ?thesis by auto
  next
    case False
    from assms(3) [OF False] show ?thesis by auto
  qed
qed

lemma parse_params_ok:
  assumes "list_all param_ok xs"
  shows "map_result parse_event_param xs = Inr (map param_of xs)"
  by (rule map_result_all [OF assms]) (simp add: parse_event_param_eq)

lemma parse_params_fail:
  assumes "\<not> list_all param_ok xs"
  shows "\<exists>e. map_result parse_event_param xs = Inl e"
  by (rule map_result_some_fails [OF assms, where h = param_of])
     (simp_all add: parse_event_param_eq)

lemma event_parser_returns:
  "(parseEventDeclaration s = Inr d \<longleftrightarrow>
      (\<exists>nm ps. event_shape s nm ps \<and> list_all param_ok (split_on (CHR '','') ps)
         \<and> d = \<lparr> item_name = nm, inputs = map param_of (split_on (CHR '','') ps),
                 item_type = ''event'', anonymous = False \<rparr>))
   \<and> ((\<exists>e. parseEventDeclaration s = Inl e) \<longleftrightarrow>
      \<not> (\<exists>nm ps. event_shape s nm ps \<and> list_all param_ok (split_on (CHR '','') ps)))"
proof (cases "exec_event_regex s")
  case None
  then have "\<not> event_shape s nm ps" for nm ps
    using exec_event_regex_complete [of s nm ps] by auto
  with None show ?thesis by (simp add: parseEventDeclaration_def)
next
  case (Some m)
  obtain nm ps where m: "m = (nm, ps)" by (cases m)
  with Some have shape: "event_shape s nm ps" by (simp add: exec_event_regex_sound)
  have uniq: "nm' = nm \<and> ps' = ps" if "event_shape s nm' ps'" for nm' ps'
    using exec_event_regex_complete [OF that] Some m by simp
  have only: "\<not> list_all param_ok (split_on (CHR '','') ps) \<Longrightarrow>
      \<not> (\<exists>nm' ps'. event_shape s nm' ps' \<and> list_all param_ok (split_on (CHR '','') ps'))"
  proof
    assume f: "\<not> list_all param_ok (split_on (CHR '','') ps)"
    assume "\<exists>nm' ps'. event_shape s nm' ps' \<and> list_all param_ok (split_on (CHR '','') ps')"
    then obtain nm' ps' where h: "event_shape s nm' ps'" "list_all param_ok (split_on (CHR '','') ps')"
      by blast
    from uniq [OF h(1)] h(2) f show False by simp
  qed
  show ?thesis
  proof (cases "list_all param_ok (split_on (CHR '','') ps)")
    case True
    from parse_params_ok [OF True] Some m
    have p: "parseEventDeclaration s =
        Inr \<lparr> item_name = nm, inputs = map param_of (split_on (CHR '','') ps),
              item_type = ''event'', anonymous = False \<rparr>"
      by (simp add: parseEventDeclaration_def)
    have ex: "\<exists>nm ps. event_shape s nm ps \<and> list_all param_ok (split_on (CHR '','') ps)"
      using shape True by blast
    have a: "parseEventDeclaration s = Inr d \<longleftrightarrow>
      (\<exists>nm ps. event_shape s nm ps \<and> list_all param_ok (split_on (CHR '','') ps)
         \<and> d = \<lparr> item_name = nm, inputs = map param_of (split_on (CHR '','') ps),
                 item_type = ''event'', anonymous = False \<rparr>)"
    proof
      assume "parseEventDeclaration s = Inr d"
      with p have "d = \<lparr> item_name = nm, inputs = map param_of (split_on (CHR '','') ps),
                 item_type = ''event'', anonymous = False \<rparr>"
        by simp
      with shape True show "\<exists>nm ps. event_shape s nm ps \<and> list_all param_ok (split_on (CHR '','') ps)
         \<and> d = \<lparr> item_name = nm, inputs = map param_of (split_on (CHR '','') ps),
                 item_type = ''event'', anonymous = False \<rparr>"
        by blast
    next
      assume "\<exists>nm ps. event_shape s nm ps \<and> list_all param_ok (split_on (CHR '','') ps)
         \<and> d = \<lparr> item_name = nm, inputs = map param_of (split_on (CHR '','') ps),
                 item_type = ''event'', anonymous = False \<rparr>"
      then obtain nm' ps' where h: "event_shape s nm' ps'"
        "d = \<lparr> item_name = nm', inputs = map param_of (split_on (CHR '','') ps'),
                 item_type = ''event'', anonymous = False \<rparr>"
        by blast
      from uniq [OF h(1)] h(2) p show "parseEventDeclaration s = Inr d" by simp
    qed
    have b: "\<not> (\<exists>e. parseEventDeclaration s = Inl e)" using p by simp
    from a b ex show ?thesis by (simp only: simp_thms)
  next
    case False
    from parse_params_fail [OF False] Some m obtain e where
      p: "parseEventDeclaration s = Inl e"
      by (auto simp: parseEventDeclaration_def)
    have no: "\<not> (\<exists>nm' ps'. event_shape s nm' ps' \<and> list_all param_ok (split_on (CHR '','') ps'))"
      by (rule only [OF False])
    have a: "\<not> (\<exists>nm ps. event_shape s nm ps \<and> list_all param_ok (split_on (CHR '','') ps)
         \<and> d = \<lparr> item_name = nm, inputs = map param_of (split_on (CHR '','') ps),
                 item_type = ''event'', anonymous = False \<rparr>)"
      using no by blast
    have b: "\<exists>e. parseEventDeclaration s = Inl e" using p by blast
    have c: "parseEventDeclaration s \<noteq> Inr d" using p by simp
    from a b c no show ?thesis by (simp only: simp_thms)
  qed
qed

lemma parse_params_first:
  assumes "find (\<lambda>p. \<not> param_ok p) xs = Some p"
  shows "map_result parse_event_param xs = Inl (InvalidEventParameter p)"
  using assms
proof (induction xs)
  case Nil
  then show ?case by simp
next
  case (Cons x xs)
  show ?case
  proof (cases "param_ok x")
    case True
    with Cons.prems have "find (\<lambda>p. \<not> param_ok p) xs = Some p" by simp
    from Cons.IH [OF this] True show ?thesis by (simp add: parse_event_param_eq)
  next
    case False
    with Cons.prems have "x = p" by simp
    with False show ?thesis by (simp add: parse_event_param_eq)
  qed
qed

lemma first_bad_param:
  "list_all param_ok xs \<longleftrightarrow> find (\<lambda>p. \<not> param_ok p) xs = None"
  by (auto simp: find_None_iff list_all_iff)

lemma event_parser_throws:
  "parseEventDeclaration s = Inl e \<longleftrightarrow>
     (\<not> (\<exists>nm ps. event_shape s nm ps) \<and> e = InvalidEventDeclaration)
     \<or> (\<exists>nm ps p. event_shape s nm ps
           \<and> find (\<lambda>p. \<not> param_ok p) (split_on (CHR '','') ps) = Some p
           \<and> e = InvalidEventParameter p)"
proof (cases "exec_event_regex s")
  case None
  then have no: "\<not> event_shape s nm ps" for nm ps
    using exec_event_regex_complete [of s nm ps] by auto
  have "parseEventDeclaration s = Inl InvalidEventDeclaration"
    using None by (simp add: parseEventDeclaration_def)
  then show ?thesis using no by auto
next
  case (Some m)
  obtain nm ps where m: "m = (nm, ps)" by (cases m)
  with Some have shape: "event_shape s nm ps" by (simp add: exec_event_regex_sound)
  have uniq: "nm' = nm \<and> ps' = ps" if "event_shape s nm' ps'" for nm' ps'
    using exec_event_regex_complete [OF that] Some m by simp
  have ex: "\<exists>nm ps. event_shape s nm ps" using shape by blast
  show ?thesis
  proof (cases "find (\<lambda>p. \<not> param_ok p) (split_on (CHR '','') ps)")
    case None
    then have "list_all param_ok (split_on (CHR '','') ps)" by (simp add: first_bad_param)
    from parse_params_ok [OF this] Some m
    have p: "parseEventDeclaration s \<noteq> Inl e"
      by (simp add: parseEventDeclaration_def)
    have "\<not> (\<exists>nm' ps' p. event_shape s nm' ps'
           \<and> find (\<lambda>p. \<not> param_ok p) (split_on (CHR '','') ps') = Some p
           \<and> e = InvalidEventParameter p)"
    proof
      assume "\<exists>nm' ps' p. event_shape s nm' ps'
           \<and> find (\<lambda>p. \<not> param_ok p) (split_on (CHR '','') ps') = Some p
           \<and> e = InvalidEventParameter p"
      then obtain nm' ps' p where h: "event_shape s nm' ps'"
          "find (\<lambda>p. \<not> param_ok p) (split_on (CHR '','') ps') = Some p"
        by blast
      from uniq [OF h(1)] h(2) None show False by simp
    qed
    with p ex show ?thesis by (simp only: simp_thms)
  next
    case (Some p)
    from parse_params_first [OF Some] \<open>exec_event_regex s = Some m\<close> m
    have r: "parseEventDeclaration s = Inl (InvalidEventParameter p)"
      by (simp add: parseEventDeclaration_def)
    have "(\<exists>nm' ps' p'. event_shape s nm' ps'
           \<and> find (\<lambda>p. \<not> param_ok p) (split_on (CHR '','') ps') = Some p'
           \<and> e = InvalidEventParameter p') \<longleftrightarrow> e = InvalidEventParameter p"
    proof
      assume "\<exists>nm' ps' p'. event_shape s nm' ps'
           \<and> find (\<lambda>p. \<not> param_ok p) (split_on (CHR '','') ps') = Some p'
           \<and> e = InvalidEventParameter p'"
      then obtain nm' ps' p' where h: "event_shape s nm' ps'"
          "find (\<lambda>p. \<not> param_ok p) (split_on (CHR '','') ps') = Some p'"
          "e = InvalidEventParameter p'"
        by blast
      from uniq [OF h(1)] h(2) Some have "p' = p" by simp
      with h(3) show "e = InvalidEventParameter p" by simp
    next
      assume "e = InvalidEventParameter p"
      with shape Some show "\<exists>nm' ps' p'. event_shape s nm' ps'
           \<and> find (\<lambda>p. \<not> param_ok p) (split_on (CHR '','') ps') = Some p'
           \<and> e = InvalidEventParameter p'"
        by blast
    qed
    moreover have "parseEventDeclaration s = Inl e \<longleftrightarrow> e = InvalidEventParameter p"
      using r by auto
    ultimately show ?thesis using ex by (simp only: simp_thms)
  qed
qed

text \<open>
  Claim C7. \<^verbatim>\<open>parseEventDeclaration\<close> returns a descriptor exactly when the declaration has
  the shape of an event declaration and every comma-separated parameter is well formed
  (two whitespace-separated tokens, or three with \<open>indexed\<close> in the middle); the
  descriptor then has the declared name and one input for each parameter, in
  declaration order, with the first token as type, the last token as name, and indexed
  exactly for three tokens. In every other case, and only then, it throws: the
  declaration error when the shape does not match, and otherwise the parameter error
  for the first parameter that is not well formed. Both are syntax errors in the
  taxonomy of the specification.
\<close>

theorem parseEventDeclaration_spec:
  "(parseEventDeclaration s = Inr d \<longleftrightarrow>
      (\<exists>nm ps. event_shape s nm ps \<and> list_all param_ok (split_on (CHR '','') ps)
         \<and> d = \<lparr> item_name = nm, inputs = map param_of (split_on (CHR '','') ps),
                 item_type = ''event'', anonymous = False \<rparr>))
   \<and> ((\<exists>e. parseEventDeclaration s = Inl e) \<longleftrightarrow>
      \<not> (\<exists>nm ps. event_shape s nm ps \<and> list_all param_ok (split_on (CHR '','') ps)))
   \<and> (parseEventDeclaration s = Inl e \<longleftrightarrow>
        (\<not> (\<exists>nm ps. event_shape s nm ps) \<and> e = InvalidEventDeclaration)
        \<or> (\<exists>nm ps p. event_shape s nm ps
              \<and> find (\<lambda>p. \<not> param_ok p) (split_on (CHR '','') ps) = Some p
              \<and> e = InvalidEventParameter p))"
  using event_parser_returns [of s d, THEN conjunct1]
    event_parser_returns [of s d, THEN conjunct2]
    event_parser_throws [of s e]
  by (intro conjI)

lemmas event_parser_eval =
  parseEventDeclaration_def exec_event_regex_def strip_keyword_def match_event_from_def
  match_body_def match_event_tail_def parse_event_param_def trim_def is_space_def
  is_name_char_def code_def Let_def

lemma example_event_match: "exec_event_regex ''event Transfer(address indexed from, uint256 value);'' =
   Some (''Transfer'', ''address indexed from, uint256 value'')"
  by (simp add: exec_event_regex_def strip_keyword_def match_event_from_def
  match_body_def match_event_tail_def is_space_def is_name_char_def code_def Let_def)

lemma example_param_indexed: "parse_event_param ''address indexed from'' = Inr \<lparr> indexed = True, abi_type = ''address'', name = ''from'' \<rparr>"
  by (simp add: parse_event_param_def trim_def is_space_def code_def Let_def)

lemma example_param_plain: "parse_event_param '' uint256 value'' = Inr \<lparr> indexed = False, abi_type = ''uint256'', name = ''value'' \<rparr>"
  by (simp add: parse_event_param_def trim_def is_space_def code_def Let_def)

lemma example_event_parsed: "parseEventDeclaration ''event Transfer(address indexed from, uint256 value);'' =
      Inr \<lparr> item_name = ''Transfer'',
            inputs = [\<lparr> indexed = True, abi_type = ''address'', name = ''from'' \<rparr>,
                      \<lparr> indexed = False, abi_type = ''uint256'', name = ''value'' \<rparr>],
            item_type = ''event'', anonymous = False \<rparr>"
  by (simp add: parseEventDeclaration_def example_event_match example_param_indexed example_param_plain)


lemma example_event_rejected: "parseEventDeclaration ''Transfer(address index from)'' = Inl (InvalidEventParameter ''address index from'')"
  by (simp add: parseEventDeclaration_def exec_event_regex_def strip_keyword_def match_event_from_def
  match_body_def match_event_tail_def is_space_def is_name_char_def code_def Let_def
  parse_event_param_def trim_def)

theorem parseEventDeclaration_spec_witness:
  "parseEventDeclaration ''event Transfer(address indexed from, uint256 value);'' =
      Inr \<lparr> item_name = ''Transfer'',
            inputs = [\<lparr> indexed = True, abi_type = ''address'', name = ''from'' \<rparr>,
                      \<lparr> indexed = False, abi_type = ''uint256'', name = ''value'' \<rparr>],
            item_type = ''event'', anonymous = False \<rparr>
   \<and> (\<exists>nm ps. event_shape ''event Transfer(address indexed from, uint256 value);'' nm ps
         \<and> list_all param_ok (split_on (CHR '','') ps)
         \<and> \<lparr> item_name = ''Transfer'',
              inputs = [\<lparr> indexed = True, abi_type = ''address'', name = ''from'' \<rparr>,
                        \<lparr> indexed = False, abi_type = ''uint256'', name = ''value'' \<rparr>],
              item_type = ''event'', anonymous = False \<rparr>
           = \<lparr> item_name = nm, inputs = map param_of (split_on (CHR '','') ps),
               item_type = ''event'', anonymous = False \<rparr>)
   \<and> parseEventDeclaration ''Transfer(address index from)'' = Inl (InvalidEventParameter ''address index from'')
   \<and> \<not> (\<exists>nm ps. event_shape ''Transfer(address index from)'' nm ps
           \<and> list_all param_ok (split_on (CHR '','') ps))"
proof -
  note ok = parseEventDeclaration_spec [THEN conjunct1, THEN iffD1, OF example_event_parsed]
  have "\<exists>e. parseEventDeclaration ''Transfer(address index from)'' = Inl e"
    using example_event_rejected by blast
  note bad = parseEventDeclaration_spec [THEN conjunct2, THEN conjunct1, THEN iffD1, OF this]
  from example_event_parsed ok example_event_rejected bad show ?thesis by (intro conjI)
qed

section \<open>Properties of callSmartContract\<close>





























end
